theory Spec2Isabelle
  imports Complex_Main "HOL-Library.Word"
begin

section \<open>Data model\<close>

text \<open>
  The audio pipeline of \<^verbatim>\<open>utils/audioProcessing.ts\<close>. JavaScript numbers are modelled
  by \<^typ>\<open>real\<close> (no NaN, no infinity: a division by zero is a branch of its own where
  the code can reach one), counts and indices that the platform keeps as unsigned
  integers by \<^typ>\<open>nat\<close>, loop counters that the code computes with \<^verbatim>\<open>Math.floor\<close> by
  \<^typ>\<open>int\<close>, bytes by \<^typ>\<open>8 word\<close>. A ratio is any real; the code's ratios are the
  doubles among them. The quotients and the product that \<^verbatim>\<open>timeStretch\<close> floors are
  rounded to a double as the code rounds them (section Double precision). The test
  \<^verbatim>\<open>Math.abs(ratio - 1.0) < 0.001\<close> is the exact one: the difference of a double near 1
  and 1 is a double, a multiple of 2 to the power -53, and no such multiple lies
  between 0.001 and the double nearest to it, which the code compares with. Sums and
  differences of integers are exact. In \<^verbatim>\<open>processAudio\<close> the power
  \<^verbatim>\<open>Math.pow(2, pitch / 12)\<close>, which the language specifies only approximately, and the
  two quotients are the exact ones; what is proved of them are bounds.

  An \<^verbatim>\<open>AudioBuffer\<close> of the Web Audio API has a channel count, a frame count, a sample
  rate and one \<^verbatim>\<open>Float32Array\<close> of samples per channel. The samples are reals as well:
  the rounding of a store to single precision is not modelled. (Decoding and
  quantisation are exact in floating point too: \<open>s / 32768\<close> for a 16-bit \<open>s\<close> is a single
  precision number, and its products with 32767 and 32768 are double precision numbers.
  The sums of the overlap-add loop are rounded by the code and exact here.)
\<close>

datatype error = RangeError | NotSupportedError

record AudioBuffer =
  numberOfChannels :: nat
  length_b :: nat
  sampleRate :: real
  channelData :: "real list list"

text \<open>The invariant every \<^verbatim>\<open>AudioBuffer\<close> object satisfies: at least one channel,
  a positive sample rate, one array per channel, each of the buffer's length.\<close>

definition wf_buffer :: "AudioBuffer \<Rightarrow> bool" where
  "wf_buffer b \<longleftrightarrow>
     0 < numberOfChannels b \<and> 0 < sampleRate b \<and>
     length (channelData b) = numberOfChannels b \<and>
     list_all (\<lambda>c. length c = length_b b) (channelData b)"

text \<open>
  \<^verbatim>\<open>new AudioBuffer({length, numberOfChannels, sampleRate})\<close> and
  \<^verbatim>\<open>ctx.createBuffer(numberOfChannels, length, sampleRate)\<close>: the samples start at zero;
  a zero channel count, a zero length or a sample rate that is not positive raises
  \<^verbatim>\<open>NotSupportedError\<close>. (The upper limits an implementation puts on the three, and
  on memory, are not modelled.)
\<close>

definition new_AudioBuffer :: "nat \<Rightarrow> nat \<Rightarrow> real \<Rightarrow> error + AudioBuffer" where
  "new_AudioBuffer len numChannels rate =
     (if numChannels = 0 \<or> len = 0 \<or> rate \<le> 0 then Inl NotSupportedError
      else Inr \<lparr> numberOfChannels = numChannels, length_b = len, sampleRate = rate,
                 channelData = replicate numChannels (replicate len 0) \<rparr>)"

section \<open>Double precision\<close>

text \<open>
  Where the code takes \<^verbatim>\<open>Math.floor\<close> of a quotient or a product, the integer depends
  on the rounding of that operation: \<^verbatim>\<open>11 / 1.1\<close> is the double 10, while the exact
  quotient of 11 and the double 1.1 lies just below 10. Such an operation is modelled as
  the exact result rounded to the nearest double, \<open>fl\<close>: 53 significant bits, ties to the
  even neighbour. (The exponent is not bounded: overflow and gradual underflow are left
  out. They need a ratio beyond 2 to the power 1000 or below 2 to the power -1000.)
\<close>

definition round_even :: "real \<Rightarrow> int" where
  "round_even y =
     (let n = \<lfloor>y\<rfloor>; d = y - of_int n
      in if d < 1 / 2 then n else if 1 / 2 < d then n + 1 else if even n then n else n + 1)"

definition fl :: "real \<Rightarrow> real" where
  "fl x =
     (if x = 0 then 0
      else let e = \<lfloor>log 2 \<bar>x\<bar>\<rfloor>; ulp = 2 powr (of_int e - 52)
           in of_int (round_even (x / ulp)) * ulp)"

section \<open>Time stretching by overlap-add\<close>

definition windowSize :: int where
  "windowSize = 1024"

definition hopSize :: int where
  "hopSize = 512"

text \<open>\<^verbatim>\<open>hann[i] = 0.5 * (1 - Math.cos((2 * Math.PI * i) / (windowSize - 1)))\<close>\<close>

definition hann :: "nat \<Rightarrow> real" where
  "hann i = 0.5 * (1 - cos ((2 * pi * real i) / real_of_int (windowSize - 1)))"

text \<open>
  The inner loop over \<^verbatim>\<open>j\<close>:
  \<^verbatim>\<open>output[i + j] += input[inputIdx + j] * hann[j]; weights[i + j] += hann[j]\<close>.
  The state is the pair of the output and the weight array.
\<close>

definition window_step ::
  "real list \<Rightarrow> int \<Rightarrow> int \<Rightarrow> nat \<Rightarrow> real list \<times> real list \<Rightarrow> real list \<times> real list" where
  "window_step input inputIdx i j ow =
     (case ow of (output, weights) \<Rightarrow>
        (output[nat i + j := output ! (nat i + j) + input ! (nat inputIdx + j) * hann j],
         weights[nat i + j := weights ! (nat i + j) + hann j]))"

definition window_add ::
  "real list \<Rightarrow> int \<Rightarrow> int \<Rightarrow> real list \<times> real list \<Rightarrow> real list \<times> real list" where
  "window_add input inputIdx i ow =
     fold (window_step input inputIdx i) [0..<nat windowSize] ow"

text \<open>
  The synthesis loop
  \<^verbatim>\<open>for (let i = 0; i < newLength - windowSize; i += outHopSize)\<close>
  with its \<^verbatim>\<open>break\<close>. The loop need not end (the step can be zero), so it returns
  an option: \<open>None\<close> is a loop that runs forever.
\<close>

partial_function (option) ola_loop ::
  "real list \<Rightarrow> real \<Rightarrow> int \<Rightarrow> nat \<Rightarrow> nat \<Rightarrow> int \<Rightarrow> real list \<times> real list
     \<Rightarrow> (real list \<times> real list) option" where
  "ola_loop input ratio outHopSize newLength oldLength i ow =
     (if i < int newLength - windowSize then
        (let inputIdx = \<lfloor>fl (real_of_int i * ratio)\<rfloor> in
         if inputIdx + windowSize > int oldLength then Some ow
         else ola_loop input ratio outHopSize newLength oldLength (i + outHopSize)
                (window_add input inputIdx i ow))
      else Some ow)"

text \<open>The normalisation pass:
  \<^verbatim>\<open>if (weights[i] > 0.01) output[i] /= weights[i]\<close> for every \<^verbatim>\<open>i < newLength\<close>.\<close>

definition normalize_step :: "real list \<Rightarrow> nat \<Rightarrow> real list \<Rightarrow> real list" where
  "normalize_step weights i output =
     (if weights ! i > 0.01 then output[i := output ! i / weights ! i] else output)"

definition normalize :: "nat \<Rightarrow> real list \<Rightarrow> real list \<Rightarrow> real list" where
  "normalize newLength weights output = fold (normalize_step weights) [0..<newLength] output"

text \<open>The body of the loop over the channels, for one channel: \<^verbatim>\<open>output\<close> is the
  channel of the fresh buffer, \<^verbatim>\<open>weights\<close> a fresh \<^verbatim>\<open>Float32Array(newLength)\<close>.\<close>

definition stretch_channel ::
  "real list \<Rightarrow> real \<Rightarrow> int \<Rightarrow> nat \<Rightarrow> nat \<Rightarrow> real list \<Rightarrow> real list option" where
  "stretch_channel input ratio outHopSize newLength oldLength output =
     (case ola_loop input ratio outHopSize newLength oldLength 0
             (output, replicate newLength 0) of
        None \<Rightarrow> None
      | Some (output', weights) \<Rightarrow> Some (normalize newLength weights output'))"

fun stretch_channels ::
  "real list list \<Rightarrow> real \<Rightarrow> int \<Rightarrow> nat \<Rightarrow> nat \<Rightarrow> nat list \<Rightarrow> real list list
     \<Rightarrow> real list list option" where
  "stretch_channels ins ratio outHopSize newLength oldLength [] outs = Some outs"
| "stretch_channels ins ratio outHopSize newLength oldLength (channel # rest) outs =
     (case stretch_channel (ins ! channel) ratio outHopSize newLength oldLength
             (outs ! channel) of
        None \<Rightarrow> None
      | Some output \<Rightarrow>
          stretch_channels ins ratio outHopSize newLength oldLength rest
            (outs[channel := output]))"

text \<open>
  \<^verbatim>\<open>timeStretch(buffer, ratio)\<close>. With \<^verbatim>\<open>ratio\<close> zero the code computes the length
  \<^verbatim>\<open>Math.max(1, Math.floor(oldLength / 0))\<close>, which is \<^verbatim>\<open>Infinity\<close> or \<^verbatim>\<open>NaN\<close>; the
  \<^verbatim>\<open>AudioBuffer\<close> constructor reads either as the length 0 and raises.
\<close>

definition timeStretch :: "AudioBuffer \<Rightarrow> real \<Rightarrow> (error + AudioBuffer) option" where
  "timeStretch buffer ratio =
     (if \<bar>ratio - 1.0\<bar> < 0.001 then Some (Inr buffer)
      else if ratio = 0 then Some (Inl NotSupportedError)
      else
        let numChannels = numberOfChannels buffer;
            oldLength = length_b buffer;
            newLength = nat (max 1 \<lfloor>fl (real oldLength / ratio)\<rfloor>);
            outHopSize = \<lfloor>fl (real_of_int hopSize / ratio)\<rfloor>
        in (case new_AudioBuffer newLength numChannels (sampleRate buffer) of
              Inl e \<Rightarrow> Some (Inl e)
            | Inr outBuffer \<Rightarrow>
                (case stretch_channels (channelData buffer) ratio outHopSize newLength oldLength
                        [0..<numChannels] (channelData outBuffer) of
                   None \<Rightarrow> None
                 | Some outs \<Rightarrow> Some (Inr (outBuffer\<lparr> channelData := outs \<rparr>)))))"

section \<open>The effect orchestrator\<close>




section \<open>The PCM frame interpreter\<close>

text \<open>
  \<^verbatim>\<open>new Int16Array(data.buffer)\<close>: a view of the bytes as signed 16-bit integers, in
  the byte order of the platform (little-endian). The constructor raises \<^verbatim>\<open>RangeError\<close> when the byte length is odd. (The
  array that \<^verbatim>\<open>decodeBase64\<close> returns owns its whole buffer, so \<^verbatim>\<open>data.buffer\<close> holds
  the bytes of \<^verbatim>\<open>data\<close>.)
\<close>

definition int16_at :: "8 word list \<Rightarrow> nat \<Rightarrow> int" where
  "int16_at buf k = signed_take_bit 15 (uint (buf ! (2 * k)) + 256 * uint (buf ! (2 * k + 1)))"

definition Int16Array :: "8 word list \<Rightarrow> error + int list" where
  "Int16Array buf =
     (if length buf mod 2 \<noteq> 0 then Inl RangeError
      else Inr (map (int16_at buf) [0..<length buf div 2]))"

text \<open>JavaScript's conversion of a number to an integer drops the fraction.\<close>

definition js_trunc :: "real \<Rightarrow> int" where
  "js_trunc x = (if x < 0 then \<lceil>x\<rceil> else \<lfloor>x\<rfloor>)"

text \<open>
  \<^verbatim>\<open>ctx.createBuffer(numChannels, frameCount, sampleRate)\<close>: the length is an
  \<^verbatim>\<open>unsigned long\<close>, so a fractional frame count loses its fraction. (No array of this
  program reaches $2^{32}$ elements; the reduction modulo $2^{32}$ is left out.)
\<close>

definition createBuffer :: "nat \<Rightarrow> real \<Rightarrow> real \<Rightarrow> error + AudioBuffer" where
  "createBuffer numChannels len rate = new_AudioBuffer (nat (js_trunc len)) numChannels rate"

text \<open>
  \<^verbatim>\<open>for (let i = 0; i < frameCount; i++)
    channelData[i] = dataInt16[i * numChannels + channel] / 32768.0\<close>.
  The bound \<^verbatim>\<open>frameCount\<close> is a quotient and need not be whole. A store beyond the end
  of a \<^verbatim>\<open>Float32Array\<close> is ignored, so what the code reads for it (beyond the end of the
  \<^verbatim>\<open>Int16Array\<close>) never reaches the buffer.
\<close>

definition decode_sample :: "int list \<Rightarrow> nat \<Rightarrow> nat \<Rightarrow> nat \<Rightarrow> real list \<Rightarrow> real list" where
  "decode_sample dataInt16 numChannels channel i cd =
     (if i < length cd
      then cd[i := real_of_int (dataInt16 ! (i * numChannels + channel)) / 32768.0]
      else cd)"

definition decode_channel :: "int list \<Rightarrow> nat \<Rightarrow> real \<Rightarrow> nat \<Rightarrow> real list \<Rightarrow> real list" where
  "decode_channel dataInt16 numChannels frameCount channel cd =
     fold (decode_sample dataInt16 numChannels channel) [0..<nat \<lceil>frameCount\<rceil>] cd"

definition decode_channels :: "int list \<Rightarrow> nat \<Rightarrow> real \<Rightarrow> nat \<Rightarrow> AudioBuffer \<Rightarrow> AudioBuffer" where
  "decode_channels dataInt16 numChannels frameCount channel buffer =
     buffer\<lparr> channelData := (channelData buffer)
       [channel := decode_channel dataInt16 numChannels frameCount channel
                     (channelData buffer ! channel)] \<rparr>"

definition decodePCMToAudioBuffer :: "8 word list \<Rightarrow> real \<Rightarrow> nat \<Rightarrow> error + AudioBuffer" where
  "decodePCMToAudioBuffer data rate numChannels =
     (case Int16Array data of
        Inl e \<Rightarrow> Inl e
      | Inr dataInt16 \<Rightarrow>
          (let frameCount = real (length dataInt16) / real numChannels
           in (case createBuffer numChannels frameCount rate of
                 Inl e \<Rightarrow> Inl e
               | Inr buffer \<Rightarrow>
                   Inr (fold (decode_channels dataInt16 numChannels frameCount)
                          [0..<numChannels] buffer))))"

section \<open>The container encoder\<close>

text \<open>
  The encoder writes through a \<^verbatim>\<open>DataView\<close> at a running position. The view and the
  position are the state; a write that does not fit raises \<^verbatim>\<open>RangeError\<close>. All
  writes are little-endian; a value is cut to an integer and to the width written.
\<close>

record writer =
  view :: "8 word list"
  pos :: nat

definition bytes16 :: "real \<Rightarrow> 8 word list" where
  "bytes16 d = [word_of_int (js_trunc d), word_of_int (js_trunc d div 256)]"

definition bytes32 :: "real \<Rightarrow> 8 word list" where
  "bytes32 d = [word_of_int (js_trunc d), word_of_int (js_trunc d div 256),
                word_of_int (js_trunc d div 65536), word_of_int (js_trunc d div 16777216)]"

definition view_set :: "nat \<Rightarrow> 8 word list \<Rightarrow> 8 word list \<Rightarrow> error + 8 word list" where
  "view_set p bs v =
     (if p + length bs > length v then Inl RangeError
      else Inr (take p v @ bs @ drop (p + length bs) v))"

definition setUint16 :: "real \<Rightarrow> writer \<Rightarrow> error + writer" where
  "setUint16 d w =
     (case view_set (pos w) (bytes16 d) (view w) of
        Inl e \<Rightarrow> Inl e
      | Inr v \<Rightarrow> Inr \<lparr> view = v, pos = pos w + 2 \<rparr>)"

definition setUint32 :: "real \<Rightarrow> writer \<Rightarrow> error + writer" where
  "setUint32 d w =
     (case view_set (pos w) (bytes32 d) (view w) of
        Inl e \<Rightarrow> Inl e
      | Inr v \<Rightarrow> Inr \<lparr> view = v, pos = pos w + 4 \<rparr>)"

definition and_then :: "error + 'a \<Rightarrow> ('a \<Rightarrow> error + 'b) \<Rightarrow> error + 'b" where
  "and_then r f = (case r of Inl e \<Rightarrow> Inl e | Inr x \<Rightarrow> f x)"

definition write_header :: "nat \<Rightarrow> real \<Rightarrow> nat \<Rightarrow> writer \<Rightarrow> error + writer" where
  "write_header numOfChan rate len w0 =
     and_then (setUint32 0x46464952 w0) (\<lambda>w.
     and_then (setUint32 (real len - 8) w) (\<lambda>w.
     and_then (setUint32 0x45564157 w) (\<lambda>w.
     and_then (setUint32 0x20746d66 w) (\<lambda>w.
     and_then (setUint32 16 w) (\<lambda>w.
     and_then (setUint16 1 w) (\<lambda>w.
     and_then (setUint16 (real numOfChan) w) (\<lambda>w.
     and_then (setUint32 rate w) (\<lambda>w.
     and_then (setUint32 (rate * 2 * real numOfChan) w) (\<lambda>w.
     and_then (setUint16 (real numOfChan * 2) w) (\<lambda>w.
     and_then (setUint16 16 w) (\<lambda>w.
     and_then (setUint32 0x61746164 w) (\<lambda>w.
     setUint32 (real len - real (pos w) - 4) w))))))))))))"

text \<open>
  \<^verbatim>\<open>sample = Math.max(-1, Math.min(1, channels[i][offset]));
  sample = (sample < 0 ? sample * 0x8000 : sample * 0x7fff) | 0\<close>.
  The \<^verbatim>\<open>| 0\<close> is the conversion to a signed 32-bit integer.
\<close>

definition quantize :: "real \<Rightarrow> int" where
  "quantize x =
     (let sample = max (-1) (min 1 x)
      in signed_take_bit 31 (js_trunc (if sample < 0 then sample * 0x8000 else sample * 0x7fff)))"

text \<open>A read beyond the end of a channel is \<^verbatim>\<open>undefined\<close>, which the arithmetic turns
  into \<^verbatim>\<open>NaN\<close> and \<^verbatim>\<open>| 0\<close> into 0.\<close>

definition sample_at :: "real list list \<Rightarrow> nat \<Rightarrow> nat \<Rightarrow> int" where
  "sample_at channels i offset =
     (if offset < length (channels ! i) then quantize (channels ! i ! offset) else 0)"

text \<open>The loop over the channels of one frame:
  \<^verbatim>\<open>view.setInt16(pos, sample, true); pos += 2\<close>.\<close>

fun write_frame :: "real list list \<Rightarrow> nat \<Rightarrow> nat list \<Rightarrow> writer \<Rightarrow> error + writer" where
  "write_frame channels offset [] w = Inr w"
| "write_frame channels offset (i # rest) w =
     (case view_set (pos w) (bytes16 (real_of_int (sample_at channels i offset))) (view w) of
        Inl e \<Rightarrow> Inl e
      | Inr v \<Rightarrow> write_frame channels offset rest \<lparr> view = v, pos = pos w + 2 \<rparr>)"

text \<open>\<^verbatim>\<open>while (pos < length) { ...; offset++ }\<close>\<close>

partial_function (option) write_samples ::
  "real list list \<Rightarrow> nat \<Rightarrow> nat \<Rightarrow> nat \<Rightarrow> writer \<Rightarrow> (error + writer) option" where
  "write_samples channels numOfChan len offset w =
     (if pos w < len then
        (case write_frame channels offset [0..<numOfChan] w of
           Inl e \<Rightarrow> Some (Inl e)
         | Inr w' \<Rightarrow> write_samples channels numOfChan len (offset + 1) w')
      else Some (Inr w))"

definition audioBufferToWav :: "AudioBuffer \<Rightarrow> (error + 8 word list) option" where
  "audioBufferToWav buffer =
     (let numOfChan = numberOfChannels buffer;
          len = length_b buffer * numOfChan * 2 + 44;
          w0 = \<lparr> view = replicate len 0, pos = 0 \<rparr>
      in (case write_header numOfChan (sampleRate buffer) len w0 of
            Inl e \<Rightarrow> Some (Inl e)
          | Inr w \<Rightarrow>
              (let channels = map (\<lambda>i. channelData buffer ! i) [0..<numberOfChannels buffer]
               in (case write_samples channels numOfChan len 0 w of
                     None \<Rightarrow> None
                   | Some (Inl e) \<Rightarrow> Some (Inl e)
                   | Some (Inr w') \<Rightarrow> Some (Inr (view w'))))))"

section \<open>What the encoder and the decoder compute, in closed form\<close>

text \<open>The writer that has written \<open>pre\<close> and has \<open>rest\<close> of the view ahead of its
  position.\<close>

definition wr :: "8 word list \<Rightarrow> 8 word list \<Rightarrow> writer" where
  "wr pre rest = \<lparr> view = pre @ rest, pos = length pre \<rparr>"

text \<open>The bytes of one frame (one 16-bit sample per channel), and the 44 bytes of the
  header, in the order \<^verbatim>\<open>audioBufferToWav\<close> writes them.\<close>

definition frame_bytes :: "real list list \<Rightarrow> nat \<Rightarrow> nat list \<Rightarrow> 8 word list" where
  "frame_bytes channels offset cs =
     concat (map (\<lambda>i. bytes16 (real_of_int (sample_at channels i offset))) cs)"

definition wav_header :: "nat \<Rightarrow> real \<Rightarrow> nat \<Rightarrow> 8 word list" where
  "wav_header numOfChan rate len =
     bytes32 0x46464952 @ bytes32 (real len - 8) @ bytes32 0x45564157 @
     bytes32 0x20746d66 @ bytes32 16 @ bytes16 1 @ bytes16 (real numOfChan) @
     bytes32 rate @ bytes32 (rate * 2 * real numOfChan) @ bytes16 (real numOfChan * 2) @
     bytes16 16 @ bytes32 0x61746164 @ bytes32 (real len - 44)"

text \<open>Reading a file back: \<open>field bytes p n\<close> is the \<open>n\<close> bytes from offset \<open>p\<close>,
  \<open>le_uint\<close> their value as a little-endian unsigned integer, \<open>ascii\<close> the bytes of a
  string.\<close>

definition le_uint :: "8 word list \<Rightarrow> nat" where
  "le_uint bs = foldr (\<lambda>b acc. unat b + 256 * acc) bs 0"

definition field :: "8 word list \<Rightarrow> nat \<Rightarrow> nat \<Rightarrow> 8 word list" where
  "field bytes p n = take n (drop p bytes)"

definition ascii :: "string \<Rightarrow> 8 word list" where
  "ascii s = map of_char s"

text \<open>The buffer \<^verbatim>\<open>decodePCMToAudioBuffer\<close> builds from bytes that hold at least one
  whole frame: sample \<open>i * numChannels + channel\<close> goes to frame \<open>i\<close> of the channel.\<close>

definition decoded :: "8 word list \<Rightarrow> real \<Rightarrow> nat \<Rightarrow> AudioBuffer" where
  "decoded data rate c =
     \<lparr> numberOfChannels = c, length_b = length data div 2 div c, sampleRate = rate,
       channelData = map (\<lambda>ch. map (\<lambda>i. real_of_int (int16_at data (i * c + ch)) / 32768)
                                   [0..<length data div 2 div c]) [0..<c] \<rparr>"

section \<open>What the synthesis loop computes, in closed form\<close>

text \<open>
  The synthesis positions the loop visits from \<open>i\<close> on when the step is positive: each
  \<open>i\<close> that passes the loop condition \<open>i < newLength - windowSize\<close> and the \<^verbatim>\<open>break\<close> test.
\<close>

function ola_positions :: "real \<Rightarrow> int \<Rightarrow> nat \<Rightarrow> nat \<Rightarrow> int \<Rightarrow> int list" where
  "ola_positions ratio outHopSize newLength oldLength i =
     (if 0 < outHopSize \<and> i < int newLength - windowSize \<and>
         \<lfloor>fl (real_of_int i * ratio)\<rfloor> + windowSize \<le> int oldLength
      then i # ola_positions ratio outHopSize newLength oldLength (i + outHopSize)
      else [])"
  by pat_completeness auto
termination
  by (relation "measure (\<lambda>(r, h, n, m, i). nat (int n - windowSize - i))") auto

declare ola_positions.simps [simp del]

text \<open>
  What the window at position \<open>i\<close> adds to the output and to the weight at index \<open>k\<close>,
  and the sample at \<open>k\<close> after normalisation: the sum of the windowed input over the
  positions, divided by the sum of the window weights where that exceeds 0.01.
\<close>

definition ola_term :: "real list \<Rightarrow> real \<Rightarrow> nat \<Rightarrow> int \<Rightarrow> real" where
  "ola_term input ratio k i =
     (if i \<le> int k \<and> int k < i + windowSize
      then input ! (nat \<lfloor>fl (real_of_int i * ratio)\<rfloor> + (k - nat i)) * hann (k - nat i)
      else 0)"

definition ola_weight :: "nat \<Rightarrow> int \<Rightarrow> real" where
  "ola_weight k i = (if i \<le> int k \<and> int k < i + windowSize then hann (k - nat i) else 0)"

definition ola_sample :: "real list \<Rightarrow> real \<Rightarrow> int list \<Rightarrow> nat \<Rightarrow> real" where
  "ola_sample input ratio positions k =
     (let weight = sum_list (map (ola_weight k) positions);
          acc = sum_list (map (ola_term input ratio k) positions)
      in if weight > 0.01 then acc / weight else acc)"

text \<open>
  The loop as the specification words it, for comparison: the position \<open>i\<close> advances in
  steps of \<open>Hout\<close> while \<open>i + W \<le> newLength\<close>; it stops when \<open>inputIdx + W\<close> exceeds the
  input length; the window is accumulated and the output normalised as in the code,
  and the floors are those of the code's doubles: only the loop condition differs.
\<close>

partial_function (option) ola_loop_spec ::
  "real list \<Rightarrow> real \<Rightarrow> int \<Rightarrow> nat \<Rightarrow> int \<Rightarrow> real list \<times> real list
     \<Rightarrow> (real list \<times> real list) option" where
  "ola_loop_spec input r Hout newLength i ow =
     (if i + windowSize \<le> int newLength then
        (let inputIdx = \<lfloor>fl (real_of_int i * r)\<rfloor> in
         if inputIdx + windowSize > int (length input) then Some ow
         else ola_loop_spec input r Hout newLength (i + Hout) (window_add input inputIdx i ow))
      else Some ow)"

definition stretch_channel_spec :: "real list \<Rightarrow> real \<Rightarrow> nat \<Rightarrow> real list option" where
  "stretch_channel_spec input r newLength =
     (case ola_loop_spec input r \<lfloor>fl (real_of_int hopSize / r)\<rfloor> newLength 0
             (replicate newLength 0, replicate newLength 0) of
        None \<Rightarrow> None
      | Some (output, weight) \<Rightarrow> Some (normalize newLength weight output))"

section \<open>Buffers for the closed instances\<close>

text \<open>The doubles nearest to 1.1 and to 1.6 (\<^verbatim>\<open>0x3FF199999999999A\<close> and
  \<^verbatim>\<open>0x3FF999999999999A\<close>).\<close>

definition double_1_1 :: real where
  "double_1_1 = 2476979795053773 / 2251799813685248"

definition double_1_6 :: real where
  "double_1_6 = 3602879701896397 / 2251799813685248"

text \<open>The double nearest to 512.2 (\<^verbatim>\<open>0x408001999999999A\<close>).\<close>

definition double_512_2 :: real where
  "double_512_2 = 2252679422987469 / 4398046511104"

text \<open>A one-channel buffer of four frames at 24 kHz, one of a single frame, one of 11
  frames, and silent ones of 600000 frames (25 seconds) and of 525005 frames.\<close>

definition buf525005 :: AudioBuffer where
  "buf525005 = \<lparr> numberOfChannels = 1, length_b = 525005, sampleRate = 24000,
                 channelData = [replicate 525005 0] \<rparr>"

definition buf11 :: AudioBuffer where
  "buf11 = \<lparr> numberOfChannels = 1, length_b = 11, sampleRate = 24000,
             channelData = [replicate 11 (1/2)] \<rparr>"

definition buf4 :: AudioBuffer where
  "buf4 = \<lparr> numberOfChannels = 1, length_b = 4, sampleRate = 24000,
            channelData = [[1/2, -1/4, 1/8, 0]] \<rparr>"

definition buf1 :: AudioBuffer where
  "buf1 = \<lparr> numberOfChannels = 1, length_b = 1, sampleRate = 24000, channelData = [[1/2]] \<rparr>"

definition long_buffer :: AudioBuffer where
  "long_buffer = \<lparr> numberOfChannels = 1, length_b = 600000, sampleRate = 24000,
      channelData = [replicate 600000 0] \<rparr>"

text \<open>The buffer decoded from the two bytes \<open>01 00\<close> (the sample 1), and a stereo buffer
  of 100 frames, a buffer of 1000 frames, and buffers of 1640 and of 2048 frames that hold the
  sample 1 throughout.\<close>

definition cex_buffer :: AudioBuffer where
  "cex_buffer = \<lparr> numberOfChannels = 1, length_b = 1, sampleRate = 24000,
       channelData = [[1 / 32768]] \<rparr>"


definition ones2048 :: AudioBuffer where
  "ones2048 = \<lparr> numberOfChannels = 1, length_b = 2048, sampleRate = 24000,
       channelData = [replicate 2048 1] \<rparr>"

definition ones1640 :: AudioBuffer where
  "ones1640 = \<lparr> numberOfChannels = 1, length_b = 1640, sampleRate = 24000,
       channelData = [replicate 1640 1] \<rparr>"

definition stereo100 :: AudioBuffer where
  "stereo100 = \<lparr> numberOfChannels = 2, length_b = 100, sampleRate = 24000,
       channelData = [replicate 100 (1/2), replicate 100 (-1/4)] \<rparr>"

section \<open>Rounding to a double\<close>

lemma round_even_bounds:
  "y - 1 / 2 \<le> of_int (round_even y) \<and> of_int (round_even y) \<le> y + 1 / 2"
proof -
  define n where "n = \<lfloor>y\<rfloor>"
  have "of_int n \<le> y" "y < of_int n + 1" unfolding n_def by linarith+
  then show ?thesis
    unfolding round_even_def Let_def n_def [symmetric]
    by (cases "y - of_int n < 1 / 2"; cases "1 / 2 < y - of_int n"; cases "even n") simp_all
qed

lemma round_even_of_int [simp]: "round_even (of_int k) = k"
  by (simp add: round_even_def)

lemma round_even_mono: "y \<le> z \<Longrightarrow> round_even y \<le> round_even z"
proof -
  assume yz: "y \<le> z"
  then have f: "\<lfloor>y\<rfloor> \<le> \<lfloor>z\<rfloor>" by (rule floor_mono)
  have ry: "\<lfloor>y\<rfloor> \<le> round_even y" "round_even y \<le> \<lfloor>y\<rfloor> + 1"
    and rz: "\<lfloor>z\<rfloor> \<le> round_even z"
    by (simp_all add: round_even_def Let_def)
  show ?thesis
  proof (cases "\<lfloor>y\<rfloor> = \<lfloor>z\<rfloor>")
    case True
    with yz show ?thesis
      by (auto simp: round_even_def Let_def)
  next
    case False
    with f have "\<lfloor>y\<rfloor> + 1 \<le> \<lfloor>z\<rfloor>" by simp
    with ry rz show ?thesis by linarith
  qed
qed

lemma exponent_bounds:
  assumes "0 < x"
  shows "2 powr of_int \<lfloor>log 2 x\<rfloor> \<le> x" and "x < 2 powr (of_int \<lfloor>log 2 x\<rfloor> + 1)"
  using floor_log_eq_powr_iff [of x 2 "\<lfloor>log 2 x\<rfloor>"] assms by simp_all

lemma exponent_unique:
  assumes "2 powr of_int e \<le> x" "x < 2 powr (of_int e + 1)"
  shows "\<lfloor>log 2 x\<rfloor> = e"
proof -
  have x: "0 < x" using assms(1) powr_gt_zero [of 2 "of_int e"] by linarith
  then show ?thesis
    using floor_log_eq_powr_iff [of x 2 e] assms by simp
qed

lemma ulp_scale: "2 powr of_int e / 2 powr (of_int e - 52) = (2::real) ^ 52"
  "2 powr (of_int e + 1) / 2 powr (of_int e - 52) = (2::real) ^ 53"
proof -
  have "2 powr of_int e / 2 powr (of_int e - 52) = (2::real) powr 52"
    by (simp add: powr_diff [symmetric])
  then show "2 powr of_int e / 2 powr (of_int e - 52) = (2::real) ^ 52" by simp
  have "2 powr (of_int e + 1) / 2 powr (of_int e - 52) = (2::real) powr 53"
    by (simp add: powr_diff [symmetric])
  then show "2 powr (of_int e + 1) / 2 powr (of_int e - 52) = (2::real) ^ 53" by simp
qed

lemma fl_pos:
  assumes "0 < x"
  defines "e \<equiv> \<lfloor>log 2 x\<rfloor>"
  defines "u \<equiv> 2 powr (of_int e - 52)"
  shows "fl x = of_int (round_even (x / u)) * u"
    and "2 ^ 52 \<le> round_even (x / u)" and "round_even (x / u) \<le> 2 ^ 53"
proof -
  show "fl x = of_int (round_even (x / u)) * u"
    using assms(1) by (simp add: fl_def Let_def e_def u_def)
  have u: "0 < u" by (simp add: u_def)
  have "2 powr of_int e / u \<le> x / u" "x / u \<le> 2 powr (of_int e + 1) / u"
    using exponent_bounds [OF assms(1)] u
    by (simp_all add: e_def divide_le_cancel)
  then have "of_int (2 ^ 52) \<le> x / u" "x / u \<le> of_int (2 ^ 53)"
    by (simp_all add: u_def ulp_scale)
  then have "round_even (of_int (2 ^ 52)) \<le> round_even (x / u)"
    "round_even (x / u) \<le> round_even (of_int (2 ^ 53))"
    by (simp_all only: round_even_mono)
  then show "2 ^ 52 \<le> round_even (x / u)" "round_even (x / u) \<le> 2 ^ 53"
    by (simp_all only: round_even_of_int)
qed

lemma fl_zero [simp]: "fl 0 = 0"
  by (simp add: fl_def)

lemma ulp_times: "2 ^ 52 * 2 powr (of_int e - 52) = (2::real) powr of_int e"
  "2 ^ 53 * 2 powr (of_int e - 52) = (2::real) powr (of_int e + 1)"
proof -
  have "(2::real) powr 52 * 2 powr (of_int e - 52) = 2 powr of_int e"
    unfolding powr_add [symmetric] by simp
  then show "2 ^ 52 * 2 powr (of_int e - 52) = (2::real) powr of_int e" by simp
  have "(2::real) powr 53 * 2 powr (of_int e - 52) = 2 powr (of_int e + 1)"
    unfolding powr_add [symmetric] by (simp add: add.commute)
  then show "2 ^ 53 * 2 powr (of_int e - 52) = (2::real) powr (of_int e + 1)" by simp
qed

lemma fl_range:
  assumes "0 < x"
  shows "2 powr of_int \<lfloor>log 2 x\<rfloor> \<le> fl x" and "fl x \<le> 2 powr (of_int \<lfloor>log 2 x\<rfloor> + 1)"
proof -
  define e where "e = \<lfloor>log 2 x\<rfloor>"
  define u where "u = 2 powr (of_int e - 52 :: real)"
  define m where "m = round_even (x / u)"
  have u: "0 < u" by (simp add: u_def)
  have f: "fl x = of_int m * u" and m: "2 ^ 52 \<le> m" "m \<le> 2 ^ 53"
    using fl_pos [OF assms] by (simp_all add: m_def u_def e_def)
  from m have "(of_int (2 ^ 52) :: real) \<le> of_int m" "(of_int m :: real) \<le> of_int (2 ^ 53)"
    by (simp_all only: of_int_le_iff)
  then have "(2::real) ^ 52 \<le> of_int m" "of_int m \<le> (2::real) ^ 53"
    by simp_all
  then have "2 ^ 52 * u \<le> of_int m * u" "of_int m * u \<le> 2 ^ 53 * u"
    using u by (simp_all only: mult_le_cancel_right_pos)
  then show "2 powr of_int \<lfloor>log 2 x\<rfloor> \<le> fl x" "fl x \<le> 2 powr (of_int \<lfloor>log 2 x\<rfloor> + 1)"
    unfolding f u_def ulp_times e_def by simp_all
qed

lemma fl_error:
  assumes "0 < x"
  shows "\<bar>fl x - x\<bar> \<le> x / 2 ^ 53"
proof -
  define e where "e = \<lfloor>log 2 x\<rfloor>"
  define u where "u = 2 powr (of_int e - 52 :: real)"
  define m where "m = round_even (x / u)"
  have u: "0 < u" by (simp add: u_def)
  have f: "fl x = of_int m * u"
    using fl_pos(1) [OF assms] by (simp add: m_def u_def e_def)
  have "\<bar>of_int m - x / u\<bar> \<le> 1 / 2"
    using round_even_bounds [of "x / u"] unfolding m_def by linarith
  then have "\<bar>of_int m - x / u\<bar> * u \<le> 1 / 2 * u"
    using u by (simp only: mult_le_cancel_right_pos)
  moreover have "\<bar>of_int m - x / u\<bar> * u = \<bar>of_int m * u - x\<bar>"
  proof -
    have "(of_int m - x / u) * u = of_int m * u - x"
      using u by (simp add: field_simps)
    then have "\<bar>of_int m * u - x\<bar> = \<bar>(of_int m - x / u) * u\<bar>" by (simp only:)
    also have "\<dots> = \<bar>of_int m - x / u\<bar> * \<bar>u\<bar>" by (rule abs_mult)
    finally show ?thesis using u by simp
  qed
  ultimately have "\<bar>fl x - x\<bar> \<le> u / 2" by (simp add: f)
  moreover have "u * 2 ^ 52 \<le> x"
    using exponent_bounds(1) [OF assms] ulp_times(1) [of e]
    by (simp add: u_def e_def mult.commute)
  ultimately show ?thesis by (simp add: field_simps)
qed

lemma fl_mono:
  assumes "0 \<le> x" "x \<le> y"
  shows "fl x \<le> fl y"
proof (cases "x = 0")
  case True
  show ?thesis
  proof (cases "y = 0")
    case False
    with assms True have "0 < y" by simp
    from fl_range(1) [OF this] have "0 < fl y"
      using powr_gt_zero [of 2 "of_int \<lfloor>log 2 y\<rfloor>"] by linarith
    with True show ?thesis by simp
  qed (simp add: True)
next
  case False
  with assms have x: "0 < x" and y: "0 < y" by simp_all
  define ex where "ex = \<lfloor>log 2 x\<rfloor>"
  define ey where "ey = \<lfloor>log 2 y\<rfloor>"
  have "log 2 x \<le> log 2 y" using x assms(2) by (simp add: log_mono)
  then have le: "ex \<le> ey" unfolding ex_def ey_def by (rule floor_mono)
  show ?thesis
  proof (cases "ex = ey")
    case True
    define u where "u = 2 powr (of_int ex - 52 :: real)"
    have u: "0 < u" by (simp add: u_def)
    have "x / u \<le> y / u" using assms(2) u by (simp add: divide_le_cancel)
    then have "round_even (x / u) \<le> round_even (y / u)" by (rule round_even_mono)
    then have "of_int (round_even (x / u)) * u \<le> of_int (round_even (y / u)) * u"
      using u by (simp add: mult_le_cancel_right_pos)
    then show ?thesis
      using fl_pos(1) [OF x] fl_pos(1) [OF y] True
      by (simp add: u_def ex_def ey_def)
  next
    case False
    with le have "of_int ex + 1 \<le> (of_int ey :: real)" by linarith
    then have "2 powr (of_int ex + 1) \<le> (2::real) powr of_int ey"
      by (intro powr_mono) simp_all
    with fl_range(2) [OF x] fl_range(1) [OF y] show ?thesis
      unfolding ex_def ey_def by linarith
  qed
qed

lemma fl_of_int:
  assumes "0 \<le> k" "k < 2 ^ 53"
  shows "fl (of_int k) = of_int k"
proof (cases "k = 0")
  case True
  then show ?thesis by simp
next
  case False
  with assms have k: "0 < (of_int k :: real)" by simp
  define e where "e = \<lfloor>log 2 (of_int k)\<rfloor>"
  define u where "u = 2 powr (of_int e - 52 :: real)"
  have "(of_int k :: real) < of_int (2 ^ 53)"
    using assms(2) by (simp only: of_int_less_iff)
  then have "(of_int k :: real) < 2 powr 53" by simp
  with less_powr_iff [of 2 "of_int k" 53] k have "log 2 (of_int k) < 53" by simp
  then have e: "e \<le> 52" unfolding e_def by linarith
  define n where "n = nat (52 - e)"
  have "2 powr (of_int e - 52) * 2 powr real n = (2::real) powr 0"
    using e unfolding n_def powr_add [symmetric] by simp
  then have un: "u * 2 ^ n = 1"
    by (simp add: u_def powr_realpow)
  have u: "0 < u" by (simp add: u_def)
  have "of_int k / u = of_int k * 2 ^ n"
    using un u by (simp add: field_simps)
  also have "\<dots> = of_int (k * 2 ^ n)" by simp
  finally have "round_even (of_int k / u) = k * 2 ^ n"
    by (simp only: round_even_of_int)
  then have "fl (of_int k) = of_int (k * 2 ^ n) * u"
    using fl_pos(1) [OF k] by (simp add: u_def e_def)
  also have "\<dots> = of_int k * (u * 2 ^ n)" by simp
  finally show ?thesis by (simp only: un mult_1_right)
qed

lemma floor_fl:
  assumes "0 \<le> a" "a + 1 < 2 ^ 53" "of_int a \<le> x" "x + x / 2 ^ 53 < of_int a + 1"
  shows "\<lfloor>fl x\<rfloor> = a"
proof -
  have "fl (of_int a) \<le> fl x"
    using assms(1,3) by (intro fl_mono) simp_all
  then have lo: "of_int a \<le> fl x"
    using fl_of_int [of a] assms(1,2) by simp
  have "fl x < of_int a + 1"
  proof (cases "x = 0")
    case True
    then show ?thesis using assms(4) by simp
  next
    case False
    moreover have "(0::real) \<le> of_int a" using assms(1) by simp
    ultimately have "0 < x" using assms(3) by linarith
    from fl_error [OF this] assms(4) show ?thesis by linarith
  qed
  with lo show ?thesis by linarith
qed

lemma fl_ge_one: "1 \<le> x \<Longrightarrow> 1 \<le> fl x"
  using fl_mono [of 1 x] fl_of_int [of 1] by simp

lemma round_even_eq:
  assumes "of_int m - 1 / 2 < y" "y < of_int m + 1 / 2"
  shows "round_even y = m"
proof -
  have "of_int (round_even y) < of_int m + (1::real)" "of_int m - (1::real) < of_int (round_even y)"
    using round_even_bounds [of y] assms by linarith+
  then have "round_even y < m + 1" "m - 1 < round_even y"
    by linarith+
  then show ?thesis by simp
qed

lemma fl_eval:
  assumes "2 powr of_int e \<le> x" "x < 2 powr (of_int e + 1)"
    and "of_int m - 1 / 2 < x / 2 powr (of_int e - 52)"
    and "x / 2 powr (of_int e - 52) < of_int m + 1 / 2"
  shows "fl x = of_int m * 2 powr (of_int e - 52)"
proof -
  have x: "0 < x" using assms(1) powr_gt_zero [of 2 "of_int e"] by linarith
  have "\<lfloor>log 2 x\<rfloor> = e" using assms(1,2) by (rule exponent_unique)
  then show ?thesis
    using fl_pos(1) [OF x] round_even_eq [OF assms(3,4)] by simp
qed

lemma fl_eval_scaled:
  assumes "2 ^ 52 \<le> x * 2 ^ n" "x * 2 ^ n < 2 ^ 53"
    and "of_int m - 1 / 2 < x * 2 ^ n" "x * 2 ^ n < of_int m + 1 / 2"
  shows "fl x = of_int m / 2 ^ n"
proof -
  define e where "e = 52 - int n"
  have u: "2 powr (of_int e - 52) = 1 / (2::real) ^ n"
    by (simp add: e_def powr_minus_divide powr_realpow)
  have "x / 2 powr (of_int e - 52) = x * 2 ^ n"
    by (simp add: u)
  moreover have "(2::real) powr of_int e = 2 ^ 52 * 2 powr (of_int e - 52)"
    "(2::real) powr (of_int e + 1) = 2 ^ 53 * 2 powr (of_int e - 52)"
    by (simp_all only: ulp_times)
  then have pw: "2 powr of_int e = 2 ^ 52 / (2::real) ^ n"
    "2 powr (of_int e + 1) = 2 ^ 53 / (2::real) ^ n"
    by (simp_all add: u)
  have "2 ^ 52 / 2 ^ n \<le> x" "x < 2 ^ 53 / 2 ^ n"
    using assms(1,2) by (simp_all add: pos_divide_le_eq pos_less_divide_eq)
  then have "2 powr of_int e \<le> x" "x < 2 powr (of_int e + 1)"
    by (simp_all only: pw)
  ultimately have "fl x = of_int m * 2 powr (of_int e - 52)"
    using assms(3,4) by (intro fl_eval) simp_all
  then show ?thesis by (simp add: u)
qed

text \<open>
  Four operations at ordinary ratios, with the doubles nearest to 1.1, 1.6, 0.8 and 0.7
  written as fractions: each result is a whole number that the exact quotient or
  product stays just below.
\<close>

lemma fl_11: "fl (11 / (2476979795053773 / 2251799813685248)) = 10"
  using fl_eval_scaled [of "11 / (2476979795053773 / 2251799813685248)" 49 "5629499534213120"]
  by simp

lemma fl_1640: "fl (1640 / (3602879701896397 / 2251799813685248)) = 1025"
  using fl_eval_scaled [of "1640 / (3602879701896397 / 2251799813685248)" 42 "4507997673881600"]
  by simp

lemma fl_512: "fl (512 / (3602879701896397 / 4503599627370496)) = 640"
  using fl_eval_scaled [of "512 / (3602879701896397 / 4503599627370496)" 43 "5629499534213120"]
  by simp

lemma fl_320: "fl (512 / (3602879701896397 / 2251799813685248)) = 320"
  using fl_eval_scaled [of "512 / (3602879701896397 / 2251799813685248)" 44 "5629499534213120"]
  by simp

lemma fl_30000: "fl (24000 / (3602879701896397 / 4503599627370496)) = 30000"
  using fl_eval_scaled [of "24000 / (3602879701896397 / 4503599627370496)" 38 "8246337208320000"]
  by simp

lemma fl_525005: "fl (525005 / (2252679422987469 / 4398046511104)) = 1025"
  using fl_eval_scaled [of "525005 / (2252679422987469 / 4398046511104)" 42 "4507997673881600"]
  by simp

lemma fl_half: "fl (1 / 2) = 1 / 2"
  using fl_eval_scaled [of "1 / 2" 53 "4503599627370496"] by simp

lemma fl_7310: "fl (7310 * (3152519739159347 / 4503599627370496)) = 5117"
  using fl_eval_scaled [of "7310 * (3152519739159347 / 4503599627370496)" 40 "5626200999329792"]
  by simp

lemma fl_numeral: "numeral k < (2::int) ^ 53 \<Longrightarrow> fl (numeral k) = numeral k"
  using fl_of_int [of "numeral k"] by simp

lemma fl_one [simp]: "fl 1 = 1"
  using fl_of_int [of 1] by simp

section \<open>The synthesis loop: when it ends, and the shape of the result\<close>

lemma window_step_length:
  "length (fst (window_step input inputIdx i j ow)) = length (fst ow) \<and>
   length (snd (window_step input inputIdx i j ow)) = length (snd ow)"
  by (cases ow) (simp add: window_step_def)

lemma fold_window_step_length:
  "length (fst (fold (window_step input inputIdx i) js ow)) = length (fst ow) \<and>
   length (snd (fold (window_step input inputIdx i) js ow)) = length (snd ow)"
  by (induction js arbitrary: ow) (simp_all add: window_step_length)

lemma window_add_length:
  "length (fst (window_add input inputIdx i ow)) = length (fst ow)"
  "length (snd (window_add input inputIdx i ow)) = length (snd ow)"
  by (simp_all add: window_add_def fold_window_step_length)

lemma ola_loop_total:
  assumes "0 < h"
  shows "\<exists>ow'. ola_loop input r h n m i ow = Some ow' \<and>
           length (fst ow') = length (fst ow) \<and> length (snd ow') = length (snd ow)"
proof (induction "nat (int n - windowSize - i)" arbitrary: i ow rule: less_induct)
  case less
  show ?case
  proof (cases "i < int n - windowSize \<and> \<not> \<lfloor>fl (real_of_int i * r)\<rfloor> + windowSize > int m")
    case False
    then show ?thesis
      by (subst ola_loop.simps) (cases ow, auto simp: Let_def)
  next
    case True
    let ?ow = "window_add input \<lfloor>fl (real_of_int i * r)\<rfloor> i ow"
    have "nat (int n - windowSize - (i + h)) < nat (int n - windowSize - i)"
      using True assms by linarith
    from less [OF this, of ?ow] obtain ow' where
      "ola_loop input r h n m (i + h) ?ow = Some ow'"
      "length (fst ow') = length (fst ?ow)" "length (snd ow') = length (snd ?ow)"
      by blast
    with True show ?thesis
      by (subst ola_loop.simps) (simp add: Let_def window_add_length)
  qed
qed

lemma ola_loop_short:
  "int n \<le> windowSize \<Longrightarrow> ola_loop input r h n m 0 ow = Some ow"
  by (subst ola_loop.simps) simp

lemma normalize_step_length: "length (normalize_step w i out) = length out"
  by (simp add: normalize_step_def)

lemma fold_normalize_step_length: "length (fold (normalize_step w) js out) = length out"
  by (induction js arbitrary: out) (simp_all add: normalize_step_length)

lemma normalize_length: "length (normalize n w out) = length out"
  by (simp add: normalize_def fold_normalize_step_length)

lemma stretch_channel_total:
  assumes "0 < h \<or> int n \<le> windowSize"
  shows "\<exists>out'. stretch_channel input r h n m out = Some out' \<and> length out' = length out"
proof -
  obtain ow' where ow': "ola_loop input r h n m 0 (out, replicate n 0) = Some ow'"
    "length (fst ow') = length out"
    using assms ola_loop_total [of h input r n m 0 "(out, replicate n 0)"]
      ola_loop_short [of n input r h m "(out, replicate n 0)"] by auto
  then show ?thesis
    by (cases ow') (simp add: stretch_channel_def normalize_length)
qed

lemma list_all_update:
  "list_all P xs \<Longrightarrow> P x \<Longrightarrow> list_all P (xs[k := x])"
  by (induction xs arbitrary: k) (auto split: nat.splits)

lemma stretch_channels_total:
  assumes "0 < h \<or> int n \<le> windowSize" and "list_all (\<lambda>c. length c = n) outs"
    and "list_all (\<lambda>k. k < length outs) chs"
  shows "\<exists>outs'. stretch_channels ins r h n m chs outs = Some outs' \<and>
           length outs' = length outs \<and> list_all (\<lambda>c. length c = n) outs'"
  using assms(2,3)
proof (induction chs arbitrary: outs)
  case Nil
  then show ?case by simp
next
  case (Cons channel rest)
  from Cons.prems(2) have "channel < length outs" by simp
  with Cons.prems(1) have len: "length (outs ! channel) = n"
    by (simp add: list_all_length)
  obtain out' where out': "stretch_channel (ins ! channel) r h n m (outs ! channel) = Some out'"
    "length out' = n"
    using stretch_channel_total [OF assms(1), of "ins ! channel" r m "outs ! channel"] len
    by auto
  have "list_all (\<lambda>c. length c = n) (outs[channel := out'])"
    using Cons.prems(1) out'(2) by (simp add: list_all_update)
  moreover have "list_all (\<lambda>k. k < length (outs[channel := out'])) rest"
    using Cons.prems(2) by simp
  ultimately obtain outs' where
    "stretch_channels ins r h n m rest (outs[channel := out']) = Some outs'"
    "length outs' = length outs" "list_all (\<lambda>c. length c = n) outs'"
    using Cons.IH [of "outs[channel := out']"] by auto
  with out' show ?case by simp
qed

lemma hop_positive:
  assumes "0 < r" "r \<le> 512"
  shows "0 < \<lfloor>fl (real_of_int hopSize / r)\<rfloor>"
proof -
  have "1 \<le> real_of_int hopSize / r"
    using assms by (simp add: hopSize_def)
  then have "1 \<le> fl (real_of_int hopSize / r)" by (rule fl_ge_one)
  then show ?thesis by linarith
qed

lemma timeStretch_shape:
  assumes wf: "wf_buffer b" and r: "0 < r" "\<not> \<bar>r - 1.0\<bar> < 0.001"
    and fin: "r \<le> 512 \<or> \<lfloor>fl (real (length_b b) / r)\<rfloor> \<le> 1024"
  shows "\<exists>out. timeStretch b r = Some (Inr out) \<and> wf_buffer out \<and>
           numberOfChannels out = numberOfChannels b \<and> sampleRate out = sampleRate b \<and>
           length_b out = nat (max 1 \<lfloor>fl (real (length_b b) / r)\<rfloor>)"
proof -
  let ?n = "nat (max 1 \<lfloor>fl (real (length_b b) / r)\<rfloor>)"
  let ?h = "\<lfloor>fl (real_of_int hopSize / r)\<rfloor>"
  let ?c = "numberOfChannels b"
  have h: "0 < ?h \<or> int ?n \<le> windowSize"
    using fin r(1) hop_positive [of r] by (auto simp: windowSize_def)
  have n: "?n \<noteq> 0" by simp
  have new: "new_AudioBuffer ?n ?c (sampleRate b) =
      Inr \<lparr> numberOfChannels = ?c, length_b = ?n, sampleRate = sampleRate b,
            channelData = replicate ?c (replicate ?n 0) \<rparr>"
    using wf n by (simp add: new_AudioBuffer_def wf_buffer_def)
  obtain outs where outs:
    "stretch_channels (channelData b) r ?h ?n (length_b b) [0..<?c]
        (replicate ?c (replicate ?n 0)) = Some outs"
    "length outs = ?c" "list_all (\<lambda>c. length c = ?n) outs"
    using stretch_channels_total [OF h, of "replicate ?c (replicate ?n 0)" "[0..<?c]"
        "channelData b" r "length_b b"]
    by (auto simp: list_all_length)
  show ?thesis
    using r new outs wf
    by (simp add: timeStretch_def Let_def wf_buffer_def)
qed



lemma ola_loop_stuck:
  assumes run: "ola_loop input r h n m i ow = Some y"
  shows "\<not> (h = 0 \<and> i = 0 \<and> windowSize < int n \<and> windowSize \<le> int m)"
proof (rule ola_loop.raw_induct
    [where P = "\<lambda>input r h n m i ow y. \<not> (h = 0 \<and> i = 0 \<and> windowSize < int n \<and> windowSize \<le> int m)",
      OF _ run])
  fix f :: "real list \<Rightarrow> real \<Rightarrow> int \<Rightarrow> nat \<Rightarrow> nat \<Rightarrow> int \<Rightarrow> real list \<times> real list
     \<Rightarrow> (real list \<times> real list) option"
  fix input r h n m i ow y
  assume IH: "\<And>input r h n m i ow y. f input r h n m i ow = Some y \<Longrightarrow>
      \<not> (h = 0 \<and> i = 0 \<and> windowSize < int n \<and> windowSize \<le> int m)"
  assume body: "(if i < int n - windowSize
      then let inputIdx = \<lfloor>fl (real_of_int i * r)\<rfloor>
           in if int m < inputIdx + windowSize then Some ow
              else f input r h n m (i + h) (window_add input inputIdx i ow)
      else Some ow) = Some y"
  show "\<not> (h = 0 \<and> i = 0 \<and> windowSize < int n \<and> windowSize \<le> int m)"
  proof
    assume s: "h = 0 \<and> i = 0 \<and> windowSize < int n \<and> windowSize \<le> int m"
    with body have "f input r h n m i (window_add input 0 0 ow) = Some y"
      by (simp add: Let_def)
    from IH [OF this] s show False by simp
  qed
qed

lemma ola_loop_diverges:
  "windowSize < int n \<Longrightarrow> windowSize \<le> int m \<Longrightarrow> ola_loop input r 0 n m 0 ow = None"
  using ola_loop_stuck [of input r 0 n m 0 ow] by (cases "ola_loop input r 0 n m 0 ow") auto


lemma fold_normalize_step_zero:
  "\<forall>i \<in> set js. \<not> w ! i > 0.01 \<Longrightarrow> fold (normalize_step w) js out = out"
  by (induction js arbitrary: out) (simp_all add: normalize_step_def)

lemma normalize_zero: "normalize n (replicate n 0) out = out"
  by (simp add: normalize_def fold_normalize_step_zero)

lemma stretch_channel_short:
  "int n \<le> windowSize \<Longrightarrow> stretch_channel input r h n m out = Some out"
  by (simp add: stretch_channel_def ola_loop_short normalize_zero)

lemma stretch_channels_short:
  assumes "int n \<le> windowSize"
  shows "stretch_channels ins r h n m chs outs = Some outs"
  by (induction chs) (simp_all add: stretch_channel_short [OF assms])

lemma timeStretch_short:
  assumes "0 < numberOfChannels b" "0 < sampleRate b" "r \<noteq> 0" "\<not> \<bar>r - 1.0\<bar> < 0.001"
    and "max 1 \<lfloor>fl (real (length_b b) / r)\<rfloor> \<le> 1024"
  shows "timeStretch b r = Some (Inr
     \<lparr> numberOfChannels = numberOfChannels b,
       length_b = nat (max 1 \<lfloor>fl (real (length_b b) / r)\<rfloor>),
       sampleRate = sampleRate b,
       channelData = replicate (numberOfChannels b)
                       (replicate (nat (max 1 \<lfloor>fl (real (length_b b) / r)\<rfloor>)) 0) \<rparr>)"
proof -
  let ?n = "nat (max 1 \<lfloor>fl (real (length_b b) / r)\<rfloor>)"
  have "int ?n \<le> windowSize"
    using assms(5) by (simp add: windowSize_def)
  then show ?thesis
    using assms(1-4)
    by (simp add: timeStretch_def Let_def new_AudioBuffer_def stretch_channels_short)
qed

section \<open>The identity fast path\<close>

text \<open>
  C4. A ratio within 0.001 of 1 (in particular the ratio 1) skips all processing:
  \<^verbatim>\<open>timeStretch\<close> returns the very buffer it was given, whatever the buffer holds.
\<close>

theorem timeStretch_identity:
  "\<bar>r - 1.0\<bar> < 0.001 \<Longrightarrow> timeStretch b r = Some (Inr b)"
  by (simp add: timeStretch_def)

theorem timeStretch_identity_witness:
  "\<bar>(1::real) - 1.0\<bar> < 0.001 \<and> timeStretch buf4 1 = Some (Inr buf4)"
  using timeStretch_identity [of 1 buf4] by simp

lemma wf_buf4: "wf_buffer buf4"
  by (simp add: wf_buffer_def buf4_def)

section \<open>The length of the stretched buffer\<close>

text \<open>
  C5, as the code has it. For a ratio \<open>r\<close> that is positive, at least 0.001 away from 1
  and at most 512 (or with a result of at most 1024 frames), \<^verbatim>\<open>timeStretch\<close> returns a
  new buffer of \<open>max 1 \<lfloor>fl (oldLength / r)\<rfloor>\<close> frames per channel, with the sample rate
  and the channel count of its input: the quotient is the double the code computes, so
  11 frames at the ratio 1.1 give 10 frames. The length is never 0: a buffer of no
  frames, and any buffer shorter than \<open>r\<close> frames, gives one frame.
\<close>

theorem timeStretch_length:
  assumes "wf_buffer b" and "0 < r" and "0.001 \<le> \<bar>r - 1.0\<bar>"
    and "r \<le> 512 \<or> \<lfloor>fl (real (length_b b) / r)\<rfloor> \<le> 1024"
  shows "\<exists>out. timeStretch b r = Some (Inr out) \<and> wf_buffer out \<and>
           length_b out = nat (max 1 \<lfloor>fl (real (length_b b) / r)\<rfloor>) \<and>
           sampleRate out = sampleRate b \<and> numberOfChannels out = numberOfChannels b \<and>
           1 \<le> length_b out"
proof -
  from assms(3) have "\<not> \<bar>r - 1.0\<bar> < 0.001" by simp
  from timeStretch_shape [OF assms(1,2) this assms(4)] show ?thesis
    by auto
qed

theorem timeStretch_length_witness:
  "\<exists>out. timeStretch buf11 double_1_1 = Some (Inr out) \<and> wf_buffer out \<and>
     length_b out = 10 \<and> sampleRate out = 24000 \<and> numberOfChannels out = 1 \<and>
     1 \<le> length_b out"
proof -
  have "wf_buffer buf11" by (simp add: wf_buffer_def buf11_def)
  moreover have "0 < double_1_1" "0.001 \<le> \<bar>double_1_1 - 1.0\<bar>"
    "double_1_1 \<le> 512 \<or> \<lfloor>fl (real (length_b buf11) / double_1_1)\<rfloor> \<le> 1024"
    by (simp_all add: double_1_1_def)
  ultimately show ?thesis
    using timeStretch_length [of buf11 double_1_1] fl_11
    by (simp add: buf11_def double_1_1_def)
qed

text \<open>The length is not \<open>\<lfloor>oldLength / r\<rfloor>\<close> for every buffer: one frame stretched by the
  ratio 2 gives one frame, and \<open>\<lfloor>1 / 2\<rfloor> = 0\<close> (the quotient \<open>1 / 2\<close> is a double).\<close>

theorem timeStretch_length_counterexample:
  "timeStretch buf1 2 = Some (Inr \<lparr> numberOfChannels = 1, length_b = 1, sampleRate = 24000,
      channelData = [[0]] \<rparr>) \<and> \<lfloor>real (length_b buf1) / 2\<rfloor> = 0"
  using timeStretch_short [of buf1 2] by (simp add: buf1_def fl_half)

section \<open>Short results are silent\<close>

text \<open>The output length is the one the code computes. 1640 frames at the ratio 1.6 give
  1025 frames, one more than the window size, though the exact quotient is below 1025:
  that input is no instance of the theorem below (the code adds one window there, as
  the last section shows).\<close>

lemma newLength_1640:
  "max 1 \<lfloor>fl (real (length_b ones1640) / double_1_6)\<rfloor> = 1025"
  using fl_1640 by (simp add: ones1640_def double_1_6_def)

text \<open>
  C9. When the ratio is at least 0.001 away from 1 and the output length
  \<open>max 1 \<lfloor>fl (oldLength / r)\<rfloor>\<close> is at most the window size 1024, the synthesis loop does not
  run once (from \<open>i = 0\<close> it returns the arrays it was given, whatever the input and the
  step), and every sample of the buffer returned is 0, whatever the input holds.
  (The ratio 0 is no instance: the code's quotient is then \<^verbatim>\<open>Infinity\<close> or \<^verbatim>\<open>NaN\<close>,
  and no length of at most 1024.)
\<close>

theorem timeStretch_short_silence:
  assumes "wf_buffer b" and "r \<noteq> 0" and "0.001 \<le> \<bar>r - 1.0\<bar>"
    and "max 1 \<lfloor>fl (real (length_b b) / r)\<rfloor> \<le> 1024"
  shows "ola_loop input r outHopSize (nat (max 1 \<lfloor>fl (real (length_b b) / r)\<rfloor>)) (length_b b)
             0 ow = Some ow \<and>
         timeStretch b r = Some (Inr
     \<lparr> numberOfChannels = numberOfChannels b,
       length_b = nat (max 1 \<lfloor>fl (real (length_b b) / r)\<rfloor>),
       sampleRate = sampleRate b,
       channelData = replicate (numberOfChannels b)
                       (replicate (nat (max 1 \<lfloor>fl (real (length_b b) / r)\<rfloor>)) 0) \<rparr>)"
proof -
  have "int (nat (max 1 \<lfloor>fl (real (length_b b) / r)\<rfloor>)) \<le> windowSize"
    using assms(4) by (simp add: windowSize_def)
  then have "ola_loop input r outHopSize (nat (max 1 \<lfloor>fl (real (length_b b) / r)\<rfloor>)) (length_b b)
      0 ow = Some ow"
    by (rule ola_loop_short)
  then show ?thesis
    using assms timeStretch_short [of b r] by (simp add: wf_buffer_def)
qed

theorem timeStretch_short_silence_witness:
  "ola_loop [1/2, -1/4, 1/8, 0] 2 256 2 4 0 ([0, 0], [0, 0]) = Some ([0, 0], [0, 0]) \<and>
   timeStretch buf4 2 = Some (Inr \<lparr> numberOfChannels = 1, length_b = 2, sampleRate = 24000,
      channelData = [[0, 0]] \<rparr>)"
  using timeStretch_short_silence [of buf4 2 "[1/2, -1/4, 1/8, 0]" 256 "([0, 0], [0, 0])"] wf_buf4
  by (simp add: buf4_def numeral_2_eq_2 fl_numeral)

section \<open>A ratio above 512 on a long buffer\<close>

text \<open>
  C10. \<^verbatim>\<open>timeStretch\<close> does not return for every positive ratio. With the ratio 513
  the step \<open>\<lfloor>fl (512 / 513)\<rfloor>\<close> is 0; on a buffer of 600000 frames the output has 1169 frames,
  the loop is entered at \<open>i = 0\<close>, the window fits the input, and \<open>i\<close> stays 0.
\<close>

theorem timeStretch_loops:
  "wf_buffer long_buffer \<and> timeStretch long_buffer 513 = None"
proof -
  have "\<lfloor>fl (600000 / 513)\<rfloor> = 1169" by (rule floor_fl) simp_all
  then have n: "nat (max 1 \<lfloor>fl (real 600000 / (513::real))\<rfloor>) = 1169" by simp
  have "\<lfloor>fl (512 / 513)\<rfloor> = 0" by (rule floor_fl) simp_all
  then have h: "\<lfloor>fl (real_of_int hopSize / (513::real))\<rfloor> = 0" by (simp add: hopSize_def)
  have "ola_loop (replicate 600000 0) 513 0 1169 600000 0
          (replicate 1169 0, replicate 1169 0) = None"
    by (rule ola_loop_diverges) (simp_all add: windowSize_def)
  then show ?thesis
    using n h
    by (simp add: timeStretch_def long_buffer_def new_AudioBuffer_def Let_def
        stretch_channel_def wf_buffer_def)
qed

text \<open>
  The same happens just above 512 where rounding lifts the output length over the window
  size: 525005 frames at the ratio 512.2 give 1025 frames (the exact quotient is below
  1025), the step is 0, and the call does not return.
\<close>

lemma timeStretch_loops_rounded:
  "wf_buffer buf525005 \<and> \<lfloor>real (length_b buf525005) / double_512_2\<rfloor> = 1024 \<and>
   timeStretch buf525005 double_512_2 = None"
proof -
  have n: "nat (max 1 \<lfloor>fl (real 525005 / double_512_2)\<rfloor>) = 1025"
    using fl_525005 by (simp add: double_512_2_def)
  have "\<lfloor>fl (512 / double_512_2)\<rfloor> = 0"
    by (rule floor_fl) (simp_all add: double_512_2_def)
  then have h: "\<lfloor>fl (real_of_int hopSize / double_512_2)\<rfloor> = 0" by (simp add: hopSize_def)
  have "ola_loop (replicate 525005 0) double_512_2 0 1025 525005 0
          (replicate 1025 0, replicate 1025 0) = None"
    by (rule ola_loop_diverges) (simp_all add: windowSize_def)
  moreover have "\<lfloor>(525005::real) / double_512_2\<rfloor> = 1024"
    by (simp add: double_512_2_def floor_eq_iff)
  moreover have "\<not> \<bar>double_512_2 - 1.0\<bar> < 0.001" "double_512_2 \<noteq> 0"
    by (simp_all add: double_512_2_def)
  ultimately show ?thesis
    using n h
    by (simp add: timeStretch_def buf525005_def new_AudioBuffer_def Let_def
        stretch_channel_def wf_buffer_def)
qed

section \<open>The encoder, step by step\<close>

lemma length_bytes16 [simp]: "length (bytes16 d) = 2"
  by (simp add: bytes16_def)

lemma length_bytes32 [simp]: "length (bytes32 d) = 4"
  by (simp add: bytes32_def)

lemma length_wav_header [simp]: "length (wav_header c rate len) = 44"
  by (simp add: wav_header_def)

lemma pos_wr [simp]: "pos (wr pre rest) = length pre"
  by (simp add: wr_def)

lemma view_wr [simp]: "view (wr pre rest) = pre @ rest"
  by (simp add: wr_def)

lemma view_set_append:
  "length bs \<le> length rest \<Longrightarrow>
   view_set (length pre) bs (pre @ rest) = Inr ((pre @ bs) @ drop (length bs) rest)"
  by (simp add: view_set_def)

lemma setUint16_wr:
  "2 \<le> length rest \<Longrightarrow> setUint16 d (wr pre rest) = Inr (wr (pre @ bytes16 d) (drop 2 rest))"
  by (simp add: setUint16_def view_set_append wr_def)

lemma setUint32_wr:
  "4 \<le> length rest \<Longrightarrow> setUint32 d (wr pre rest) = Inr (wr (pre @ bytes32 d) (drop 4 rest))"
  by (simp add: setUint32_def view_set_append wr_def)

lemma and_then_Inr [simp]: "and_then (Inr x) f = f x"
  by (simp add: and_then_def)

lemma write_header_wr:
  assumes "44 \<le> len"
  shows "write_header c rate len (wr [] (replicate len 0)) =
           Inr (wr (wav_header c rate len) (replicate (len - 44) 0))"
  using assms
  by (simp add: write_header_def setUint16_wr setUint32_wr wav_header_def)

lemma write_frame_wr:
  "2 * length cs \<le> length rest \<Longrightarrow>
   write_frame channels offset cs (wr pre rest) =
     Inr (wr (pre @ frame_bytes channels offset cs) (drop (2 * length cs) rest))"
proof (induction cs arbitrary: pre rest)
  case Nil
  then show ?case by (simp add: frame_bytes_def)
next
  case (Cons i cs)
  let ?bs = "bytes16 (real_of_int (sample_at channels i offset))"
  have "2 * length cs \<le> length (drop 2 rest)" using Cons.prems by simp
  from Cons.IH [OF this, of "pre @ ?bs"] Cons.prems show ?case
    using view_set_append [of ?bs rest pre]
    by (simp add: frame_bytes_def wr_def add.commute)
qed

lemma write_samples_wr:
  assumes "0 < c"
  shows "length rest = 2 * c * k \<Longrightarrow> len = length pre + length rest \<Longrightarrow>
     write_samples channels c len offset (wr pre rest) =
       Some (Inr (wr (pre @ concat (map (\<lambda>f. frame_bytes channels f [0..<c])
                                        [offset..<offset + k])) []))"
proof (induction k arbitrary: offset pre rest)
  case 0
  then show ?case by (subst write_samples.simps) simp
next
  case (Suc k)
  let ?fb = "frame_bytes channels offset [0..<c]"
  have fit: "2 * length [0..<c] \<le> length rest" using Suc.prems by simp
  have step: "write_frame channels offset [0..<c] (wr pre rest) =
      Inr (wr (pre @ ?fb) (drop (2 * c) rest))"
    using write_frame_wr [OF fit, of channels offset pre] by simp
  have "length (drop (2 * c) rest) = 2 * c * k" using Suc.prems by simp
  moreover have "length ?fb = 2 * c"
    by (simp add: frame_bytes_def length_concat comp_def sum_list_triv)
  then have "len = length (pre @ ?fb) + length (drop (2 * c) rest)"
    using Suc.prems by simp
  ultimately have IH: "write_samples channels c len (offset + 1) (wr (pre @ ?fb) (drop (2 * c) rest)) =
      Some (Inr (wr ((pre @ ?fb) @ concat (map (\<lambda>f. frame_bytes channels f [0..<c])
                                        [offset + 1..<offset + 1 + k])) []))"
    by (rule Suc.IH)
  have upt: "[offset..<offset + Suc k] = offset # [offset + 1..<offset + 1 + k]"
    by (simp add: upt_conv_Cons)
  have "pos (wr pre rest) < len" using Suc.prems assms by simp
  with step have "write_samples channels c len offset (wr pre rest) =
      write_samples channels c len (offset + 1) (wr (pre @ ?fb) (drop (2 * c) rest))"
    by (subst write_samples.simps) simp
  also note IH
  finally show ?case
    by (simp only: upt list.map concat.simps append_assoc)
qed

lemma audioBufferToWav_bytes:
  assumes "wf_buffer b"
  shows "audioBufferToWav b = Some (Inr
     (wav_header (numberOfChannels b) (sampleRate b) (length_b b * numberOfChannels b * 2 + 44) @
      concat (map (\<lambda>f. frame_bytes (channelData b) f [0..<numberOfChannels b])
                [0..<length_b b])))"
proof -
  let ?c = "numberOfChannels b"
  let ?len = "length_b b * ?c * 2 + 44"
  have chans: "map (\<lambda>i. channelData b ! i) [0..<?c] = channelData b"
    using assms unfolding wf_buffer_def by (metis map_nth)
  have "0 < ?c" using assms by (simp add: wf_buffer_def)
  from write_samples_wr [OF this, of "replicate (?len - 44) 0" "length_b b" ?len
      "wav_header ?c (sampleRate b) ?len" "channelData b" 0]
  have "write_samples (channelData b) ?c ?len 0
          (wr (wav_header ?c (sampleRate b) ?len) (replicate (?len - 44) 0)) =
        Some (Inr (wr (wav_header ?c (sampleRate b) ?len @
           concat (map (\<lambda>f. frame_bytes (channelData b) f [0..<?c]) [0..<length_b b])) []))"
    by (simp add: mult.commute mult.left_commute)
  moreover have "write_header ?c (sampleRate b) ?len \<lparr> view = replicate ?len 0, pos = 0 \<rparr> =
      Inr (wr (wav_header ?c (sampleRate b) ?len) (replicate (?len - 44) 0))"
    using write_header_wr [of ?len ?c "sampleRate b"] by (simp add: wr_def)
  ultimately show ?thesis
    by (simp add: audioBufferToWav_def Let_def chans del: replicate.simps)
qed

lemma length_frame_bytes [simp]: "length (frame_bytes channels offset cs) = 2 * length cs"
  by (simp add: frame_bytes_def length_concat comp_def sum_list_triv)

lemma length_frames [simp]:
  "length (concat (map (\<lambda>f. frame_bytes channels f [0..<c]) fs)) = 2 * c * length fs"
  by (induction fs) simp_all

lemma field_header:
  "p + n \<le> 44 \<Longrightarrow> field (wav_header c rate len @ data) p n = field (wav_header c rate len) p n"
  by (simp add: field_def)

lemma wav_header_2_100:
  "wav_header 2 24000 444 =
     [0x52, 0x49, 0x46, 0x46, 0xB4, 0x01, 0, 0, 0x57, 0x41, 0x56, 0x45,
      0x66, 0x6D, 0x74, 0x20, 16, 0, 0, 0, 1, 0, 2, 0,
      0xC0, 0x5D, 0, 0, 0x00, 0x77, 0x01, 0, 4, 0, 16, 0,
      0x64, 0x61, 0x74, 0x61, 0x90, 0x01, 0, 0]"
  by (simp add: wav_header_def bytes32_def bytes16_def js_trunc_def)

section \<open>The decoder, step by step\<close>

lemma Int16Array_even:
  "even (length data) \<Longrightarrow> Int16Array data = Inr (map (int16_at data) [0..<length data div 2])"
  by (simp add: Int16Array_def even_iff_mod_2_eq_zero)

lemma decode_sample_length: "length (decode_sample d c ch i cd) = length cd"
  by (simp add: decode_sample_def)

lemma decode_sample_nth:
  "k < length cd \<Longrightarrow>
   decode_sample d c ch i cd ! k =
     (if k = i then real_of_int (d ! (i * c + ch)) / 32768 else cd ! k)"
  by (simp add: decode_sample_def)

lemma fold_decode_sample_length:
  "length (fold (decode_sample d c ch) js cd) = length cd"
  by (induction js arbitrary: cd) (simp_all add: decode_sample_length)

lemma fold_decode_sample_nth:
  "k < length cd \<Longrightarrow>
   fold (decode_sample d c ch) [0..<m] cd ! k =
     (if k < m then real_of_int (d ! (k * c + ch)) / 32768 else cd ! k)"
proof (induction m)
  case 0
  then show ?case by simp
next
  case (Suc m)
  then show ?case
    by (simp add: decode_sample_nth fold_decode_sample_length less_Suc_eq)
qed

lemma decode_channel_eq:
  assumes "length cd \<le> nat \<lceil>fc\<rceil>"
  shows "decode_channel d c fc ch cd =
           map (\<lambda>i. real_of_int (d ! (i * c + ch)) / 32768) [0..<length cd]"
proof (rule nth_equalityI)
  show "length (decode_channel d c fc ch cd) =
      length (map (\<lambda>i. real_of_int (d ! (i * c + ch)) / 32768) [0..<length cd])"
    by (simp add: decode_channel_def fold_decode_sample_length)
next
  fix k assume "k < length (decode_channel d c fc ch cd)"
  then have k: "k < length cd"
    by (simp add: decode_channel_def fold_decode_sample_length)
  with assms have "k < nat \<lceil>fc\<rceil>" by linarith
  with k show "decode_channel d c fc ch cd ! k =
      map (\<lambda>i. real_of_int (d ! (i * c + ch)) / 32768) [0..<length cd] ! k"
    by (simp add: decode_channel_def fold_decode_sample_nth)
qed

lemma decode_channels_nth:
  "k < length (channelData b) \<Longrightarrow>
   channelData (decode_channels d c fc ch b) ! k =
     (if k = ch then decode_channel d c fc ch (channelData b ! ch) else channelData b ! k)"
  by (simp add: decode_channels_def)

lemma decode_channels_fields:
  "numberOfChannels (decode_channels d c fc ch b) = numberOfChannels b"
  "length_b (decode_channels d c fc ch b) = length_b b"
  "sampleRate (decode_channels d c fc ch b) = sampleRate b"
  "length (channelData (decode_channels d c fc ch b)) = length (channelData b)"
  by (simp_all add: decode_channels_def)

lemma fold_decode_channels_fields:
  "numberOfChannels (fold (decode_channels d c fc) js b) = numberOfChannels b \<and>
   length_b (fold (decode_channels d c fc) js b) = length_b b \<and>
   sampleRate (fold (decode_channels d c fc) js b) = sampleRate b \<and>
   length (channelData (fold (decode_channels d c fc) js b)) = length (channelData b)"
  by (induction js arbitrary: b) (simp_all add: decode_channels_fields)

lemma fold_decode_channels_nth:
  "k < length (channelData b) \<Longrightarrow>
   channelData (fold (decode_channels d c fc) [0..<m] b) ! k =
     (if k < m then decode_channel d c fc k (channelData b ! k) else channelData b ! k)"
proof (induction m)
  case 0
  then show ?case by simp
next
  case (Suc m)
  then show ?case
    by (auto simp add: decode_channels_nth fold_decode_channels_fields less_Suc_eq)
qed

lemma decodePCM_closed:
  assumes c: "0 < c" and rate: "0 < rate" and ev: "even (length data)"
    and one: "2 * c \<le> length data"
  shows "decodePCMToAudioBuffer data rate c = Inr (decoded data rate c)"
proof -
  let ?n = "length data div 2"
  let ?F = "?n div c"
  let ?d = "map (int16_at data) [0..<?n]"
  let ?fc = "real ?n / real c"
  let ?b0 = "\<lparr> numberOfChannels = c, length_b = ?F, sampleRate = rate,
               channelData = replicate c (replicate ?F 0) \<rparr>"
  have cn: "c \<le> ?n" using one by simp
  then have F: "0 < ?F" using c by (simp add: div_greater_zero_iff)
  have "0 \<le> ?fc" by simp
  then have tr: "js_trunc ?fc = int ?F"
    by (simp add: js_trunc_def floor_divide_of_nat_eq not_less [symmetric])
  have cb: "createBuffer c ?fc rate = Inr ?b0"
    using c rate F by (simp add: createBuffer_def tr new_AudioBuffer_def)
  have ceil: "?F \<le> nat \<lceil>?fc\<rceil>"
  proof -
    have "int ?F = \<lfloor>?fc\<rfloor>" by (simp add: floor_divide_of_nat_eq)
    also have "\<dots> \<le> \<lceil>?fc\<rceil>" by (rule floor_le_ceiling)
    finally show ?thesis by linarith
  qed
  let ?res = "fold (decode_channels ?d c ?fc) [0..<c] ?b0"
  have fields: "numberOfChannels ?res = c" "length_b ?res = ?F" "sampleRate ?res = rate"
    "length (channelData ?res) = c"
    using fold_decode_channels_fields [of ?d c ?fc "[0..<c]" ?b0] by simp_all
  have cd: "channelData ?res = channelData (decoded data rate c)"
  proof (rule nth_equalityI)
    show "length (channelData ?res) = length (channelData (decoded data rate c))"
      using fields by (simp add: decoded_def)
  next
    fix ch assume "ch < length (channelData ?res)"
    then have ch: "ch < c" using fields by simp
    have idx: "i * c + ch < ?n" if "i < ?F" for i
    proof -
      from that have "Suc i \<le> ?F" by simp
      then have "Suc i * c \<le> ?F * c" by (rule mult_le_mono1)
      also have "\<dots> \<le> ?n" by simp
      finally show ?thesis using ch by simp
    qed
    have "channelData ?res ! ch = decode_channel ?d c ?fc ch (replicate ?F 0)"
      using ch by (simp add: fold_decode_channels_nth)
    also have "\<dots> = map (\<lambda>i. real_of_int (?d ! (i * c + ch)) / 32768) [0..<?F]"
      using decode_channel_eq [of "replicate ?F 0" ?fc ?d c ch] ceil by simp
    also have "\<dots> = map (\<lambda>i. real_of_int (int16_at data (i * c + ch)) / 32768) [0..<?F]"
      using idx by simp
    finally show "channelData ?res ! ch = channelData (decoded data rate c) ! ch"
      using ch by (simp add: decoded_def)
  qed
  have "?res = decoded data rate c"
    using fields cd by (intro AudioBuffer.equality) (simp_all add: decoded_def)
  then show ?thesis
    using cb by (simp add: decodePCMToAudioBuffer_def Int16Array_even [OF ev] Let_def)
qed

lemma wf_decoded: "0 < c \<Longrightarrow> 0 < rate \<Longrightarrow> wf_buffer (decoded data rate c)"
  by (simp add: wf_buffer_def decoded_def list_all_iff)

lemma int16_at_take:
  "2 * k + 1 < m \<Longrightarrow> int16_at (take m data) k = int16_at data k"
  by (simp add: int16_at_def)

lemma decoded_take:
  assumes "0 < c" "even (length data)"
  shows "decoded (take (2 * c * (length data div (2 * c))) data) rate c = decoded data rate c"
proof -
  let ?F = "length data div (2 * c)"
  let ?m = "2 * c * ?F"
  have le: "?m \<le> length data" by simp
  then have len: "length (take ?m data) = ?m" by simp
  have F: "length data div 2 div c = ?F" by (simp add: div_mult2_eq)
  have F': "?m div 2 div c = ?F" using assms(1) by simp
  have "int16_at (take ?m data) (i * c + ch) = int16_at data (i * c + ch)"
    if "i < ?F" "ch < c" for i ch
  proof -
    from that(1) have "Suc i \<le> ?F" by simp
    then have "Suc i * c \<le> ?F * c" by (rule mult_le_mono1)
    then have "i * c + ch < ?F * c" using that(2) by simp
    then have "2 * (i * c + ch) + 1 < ?m" by (simp add: mult.commute)
    then show ?thesis by (rule int16_at_take)
  qed
  then show ?thesis
    by (simp add: decoded_def len F F' del: length_take)
qed

section \<open>Quantisation of one sample\<close>

lemma int16_at_range: "- 32768 \<le> int16_at d k \<and> int16_at d k \<le> 32767"
proof -
  have "- (2 ^ 15) \<le> int16_at d k" "int16_at d k < 2 ^ 15"
    unfolding int16_at_def
    by (rule signed_take_bit_int_greater_eq_minus_exp, rule signed_take_bit_int_less_exp)
  then show ?thesis by simp
qed

lemma js_trunc_of_int [simp]: "js_trunc (real_of_int v) = v"
  by (simp add: js_trunc_def)

lemma int16_at_bytes16:
  assumes "- 32768 \<le> v" "v \<le> 32767"
    and "bs ! (2 * k) = word_of_int v" "bs ! (2 * k + 1) = word_of_int (v div 256)"
  shows "int16_at bs k = v"
proof -
  have "uint (word_of_int v :: 8 word) + 256 * uint (word_of_int (v div 256) :: 8 word)
      = v mod 256 + 256 * (v div 256 mod 256)"
    by (simp add: uint_word_of_int)
  also have "\<dots> = v mod 65536"
    using zmod_zmult2_eq [of 256 v 256] by simp
  also have "\<dots> = take_bit 16 v"
    by (simp add: take_bit_eq_mod)
  finally have "int16_at bs k = signed_take_bit 15 (take_bit 16 v)"
    using assms(3,4) by (simp add: int16_at_def)
  also have "\<dots> = signed_take_bit 15 v"
    by (simp add: signed_take_bit_take_bit)
  also have "\<dots> = v"
    using assms(1,2) by (intro signed_take_bit_int_eq_self) simp_all
  finally show ?thesis .
qed

lemma quantize_eq:
  assumes s_def: "s = max (-1) (min 1 x)"
  shows "quantize x = js_trunc (if s < 0 then s * 32768 else s * 32767) \<and>
   - 32768 \<le> quantize x \<and> quantize x \<le> 32767"
proof -
  define v where "v = js_trunc (if s < 0 then s * 32768 else s * 32767)"
  have s: "- 1 \<le> s" "s \<le> 1" by (simp_all add: s_def)
  have v: "- 32768 \<le> v \<and> v \<le> 32767"
  proof (cases "s < 0")
    case True
    then have "v = \<lceil>s * 32768\<rceil>" using s by (simp add: v_def js_trunc_def mult_less_0_iff)
    moreover have "- 32768 \<le> s * 32768" "s * 32768 \<le> 0" using s True by simp_all
    ultimately show ?thesis by (simp add: le_ceiling_iff ceiling_le_iff)
  next
    case False
    then have "v = \<lfloor>s * 32767\<rfloor>" using s by (simp add: v_def js_trunc_def mult_less_0_iff)
    moreover have "0 \<le> s * 32767" "s * 32767 \<le> 32767" using s False by simp_all
    ultimately show ?thesis by (simp add: le_floor_iff floor_le_iff)
  qed
  then have a: "signed_take_bit 31 v = v"
    by (intro signed_take_bit_int_eq_self) simp_all
  have b: "quantize x = signed_take_bit 31 v"
    unfolding quantize_def Let_def v_def s_def by (rule refl)
  have "quantize x = v" by (rule trans [OF b a])
  then show ?thesis
    by (simp only: v v_def [symmetric] simp_thms)
qed

lemma quantize_decoded:
  assumes "- 32768 \<le> s" "s \<le> 32767"
  shows "quantize (real_of_int s / 32768) = (if 0 < s then s - 1 else s)"
proof -
  let ?x = "real_of_int s / 32768"
  have x: "- 1 \<le> ?x" "?x \<le> 1" using assms by simp_all
  then have cl: "?x = max (-1) (min 1 ?x)" by simp
  note q = quantize_eq [OF cl]
  show ?thesis
  proof (cases "s < 0")
    case True
    then have "?x < 0" by simp
    then show ?thesis using True q by (simp add: js_trunc_def)
  next
    case False
    then have nn: "\<not> ?x < 0" by simp
    have "js_trunc (?x * 32767) = (if 0 < s then s - 1 else s)"
    proof (cases "s = 0")
      case True then show ?thesis by (simp add: js_trunc_def)
    next
      case False
      with \<open>\<not> s < 0\<close> have pos: "0 < s" by simp
      have "?x * 32767 = real_of_int s - real_of_int s / 32768" by simp
      moreover have "0 < real_of_int s / 32768" "real_of_int s / 32768 < 1"
        using pos assms by simp_all
      ultimately have "real_of_int (s - 1) \<le> ?x * 32767" "?x * 32767 < real_of_int (s - 1) + 1"
        by simp_all
      then have "\<lfloor>?x * 32767\<rfloor> = s - 1" by (simp only: floor_unique)
      moreover have "\<not> ?x * 32767 < 0" using pos by simp
      ultimately show ?thesis using pos by (simp add: js_trunc_def)
    qed
    then show ?thesis using nn q by simp
  qed
qed

text \<open>
  C2, as the code has it. A sample is clamped to \<open>[-1, 1]\<close>, scaled by 32768 when it is
  negative and by 32767 otherwise, and the product is cut towards zero: nothing rounds
  to the nearest integer. The result lies in \<open>[-32768, 32767]\<close>, so neither the
  conversion to 32 bits nor the 16-bit write loses anything, and 1.5 encodes as 1.0
  does, as 32767.
\<close>

theorem quantize_truncates:
  "quantize x = js_trunc (if max (- 1) (min 1 x) < 0 then max (- 1) (min 1 x) * 32768
                         else max (- 1) (min 1 x) * 32767) \<and>
   - 32768 \<le> quantize x \<and> quantize x \<le> 32767 \<and>
   sint (word_of_int (quantize x) :: 16 word) = quantize x \<and>
   quantize 1.5 = quantize 1 \<and> quantize 1 = 32767"
proof -
  note q = quantize_eq [OF refl, of x]
  have "sint (word_of_int (quantize x) :: 16 word) = signed_take_bit 15 (quantize x)"
    by (simp add: sint_sbintrunc')
  also have "\<dots> = quantize x"
    using q by (intro signed_take_bit_int_eq_self) simp_all
  finally have s: "sint (word_of_int (quantize x) :: 16 word) = quantize x" .
  have "quantize 1.5 = 32767" "quantize 1 = 32767"
    using quantize_eq [OF refl, of "1.5"] quantize_eq [OF refl, of 1]
    by (simp_all add: js_trunc_def)
  with q s show ?thesis by simp
qed

text \<open>The sample 0.00002 scales to 0.65534: the code writes 0, and rounding gives 1.\<close>

theorem quantize_round_counterexample:
  "quantize 0.00002 = 0 \<and> round (0.00002 * 32767 :: real) = 1"
proof -
  have "quantize 0.00002 = js_trunc (0.00002 * 32767)"
    using quantize_eq [OF refl, of "0.00002"] by simp
  also have "\<dots> = 0"
    by (simp add: js_trunc_def)
  finally show ?thesis by (simp add: round_def)
qed

section \<open>The header of the file\<close>

text \<open>
  C6. For a buffer of 2 channels, 100 frames and 24000 Hz the encoder returns
  \<open>100 * 2 * 2 + 44 = 444\<close> bytes: \<open>RIFF\<close>, the length less 8, \<open>WAVE\<close>, the \<open>fmt\<close> chunk
  of length 16 with format 1, 2 channels, 24000 Hz, byte rate 96000, block align 4 and
  16 bits per sample, then \<open>data\<close> and the length less 44.
\<close>

theorem wav_header_exact:
  assumes "wf_buffer b" and "numberOfChannels b = 2" and "length_b b = 100"
    and "sampleRate b = 24000"
  shows "\<exists>bytes. audioBufferToWav b = Some (Inr bytes) \<and>
           length bytes = 100 * 2 * 2 + 44 \<and>
           field bytes 0 4 = ascii ''RIFF'' \<and>
           le_uint (field bytes 4 4) = length bytes - 8 \<and>
           field bytes 8 4 = ascii ''WAVE'' \<and>
           field bytes 12 4 = ascii ''fmt '' \<and>
           le_uint (field bytes 16 4) = 16 \<and>
           le_uint (field bytes 20 2) = 1 \<and>
           le_uint (field bytes 22 2) = 2 \<and>
           le_uint (field bytes 24 4) = 24000 \<and>
           le_uint (field bytes 28 4) = 96000 \<and>
           le_uint (field bytes 32 2) = 4 \<and>
           le_uint (field bytes 34 2) = 16 \<and>
           field bytes 36 4 = ascii ''data'' \<and>
           le_uint (field bytes 40 4) = length bytes - 44"
proof -
  let ?data = "concat (map (\<lambda>f. frame_bytes (channelData b) f [0..<2]) [0..<100])"
  let ?bytes = "wav_header 2 24000 444 @ ?data"
  have wav: "audioBufferToWav b = Some (Inr ?bytes)"
    using audioBufferToWav_bytes [OF assms(1)] by (simp add: assms(2-4))
  have len: "length ?bytes = 444"
    by simp
  have f: "field ?bytes p n = field (wav_header 2 24000 444) p n" if "p + n \<le> 44" for p n
    using that by (rule field_header)
  have "field ?bytes 0 4 = ascii ''RIFF''"
    "le_uint (field ?bytes 4 4) = 444 - 8"
    "field ?bytes 8 4 = ascii ''WAVE''"
    "field ?bytes 12 4 = ascii ''fmt ''"
    "le_uint (field ?bytes 16 4) = 16"
    "le_uint (field ?bytes 20 2) = 1"
    "le_uint (field ?bytes 22 2) = 2"
    "le_uint (field ?bytes 24 4) = 24000"
    "le_uint (field ?bytes 28 4) = 96000"
    "le_uint (field ?bytes 32 2) = 4"
    "le_uint (field ?bytes 34 2) = 16"
    "field ?bytes 36 4 = ascii ''data''"
    "le_uint (field ?bytes 40 4) = 444 - 44"
    by (simp_all only: f wav_header_2_100) (simp_all add: field_def le_uint_def ascii_def)
  with wav len show ?thesis
    by (intro exI [of _ ?bytes]) (simp only: simp_thms)
qed

theorem wav_header_exact_witness:
  "\<exists>bytes. audioBufferToWav stereo100 = Some (Inr bytes) \<and>
           length bytes = 100 * 2 * 2 + 44 \<and>
           field bytes 0 4 = ascii ''RIFF'' \<and>
           le_uint (field bytes 4 4) = length bytes - 8 \<and>
           field bytes 8 4 = ascii ''WAVE'' \<and>
           field bytes 12 4 = ascii ''fmt '' \<and>
           le_uint (field bytes 16 4) = 16 \<and>
           le_uint (field bytes 20 2) = 1 \<and>
           le_uint (field bytes 22 2) = 2 \<and>
           le_uint (field bytes 24 4) = 24000 \<and>
           le_uint (field bytes 28 4) = 96000 \<and>
           le_uint (field bytes 32 2) = 4 \<and>
           le_uint (field bytes 34 2) = 16 \<and>
           field bytes 36 4 = ascii ''data'' \<and>
           le_uint (field bytes 40 4) = length bytes - 44"
proof -
  have "wf_buffer stereo100" by (simp add: wf_buffer_def stereo100_def)
  moreover have "numberOfChannels stereo100 = 2" "length_b stereo100 = 100"
    "sampleRate stereo100 = 24000"
    by (simp_all add: stereo100_def)
  ultimately show ?thesis by (rule wav_header_exact)
qed

section \<open>Decoding and encoding again\<close>

lemma pairs_nth:
  "k < n \<Longrightarrow>
   concat (map (\<lambda>k. [a k, b k]) [0..<n]) ! (2 * k) = a k \<and>
   concat (map (\<lambda>k. [a k, b k]) [0..<n]) ! (2 * k + 1) = b k"
proof (induction n)
  case 0
  then show ?case by simp
next
  case (Suc n)
  have len: "length (concat (map (\<lambda>k. [a k, b k]) [0..<n])) = 2 * n"
    by (induction n) simp_all
  show ?case
  proof (cases "k < n")
    case True
    with Suc.IH len show ?thesis by (simp add: nth_append)
  next
    case False
    with Suc.prems have "k = n" by simp
    with len show ?thesis by (simp add: nth_append)
  qed
qed

lemma frames_reindex:
  "concat (map (\<lambda>f. concat (map (\<lambda>i. h f i) [0..<c])) [0..<F]) =
   concat (map (\<lambda>k. h (k div c) (k mod c)) [0..<F * c])"
proof (induction F)
  case 0
  then show ?case by simp
next
  case (Suc F)
  let ?g = "\<lambda>k. h (k div c) (k mod c)"
  have "Suc F * c = F * c + c" by simp
  moreover have "[0..<F * c + c] = [0..<F * c] @ [F * c..<F * c + c]"
    by (rule upt_add_eq_append) simp
  moreover have "map (\<lambda>i. i + F * c) [0..<c] = [F * c..<c + F * c]"
    by (rule map_add_upt)
  ultimately have split: "[0..<Suc F * c] = [0..<F * c] @ map (\<lambda>i. i + F * c) [0..<c]"
    by (simp only: add.commute [of c])
  have last: "map ?g (map (\<lambda>i. i + F * c) [0..<c]) = map (\<lambda>i. h F i) [0..<c]"
    by (rule nth_equalityI) simp_all
  have "concat (map (\<lambda>f. concat (map (\<lambda>i. h f i) [0..<c])) [0..<Suc F]) =
      concat (map (\<lambda>f. concat (map (\<lambda>i. h f i) [0..<c])) [0..<F]) @
      concat (map (\<lambda>i. h F i) [0..<c])"
    by simp
  also have "\<dots> = concat (map ?g [0..<F * c]) @ concat (map ?g (map (\<lambda>i. i + F * c) [0..<c]))"
    by (simp only: Suc.IH last)
  also have "\<dots> = concat (map ?g [0..<Suc F * c])"
    by (simp only: split map_append concat_append)
  finally show ?case .
qed

lemma sample_at_decoded:
  assumes "0 < c" "k < length data div 2 div c * c"
  shows "sample_at (channelData (decoded data rate c)) (k mod c) (k div c) =
           (if 0 < int16_at data k then int16_at data k - 1 else int16_at data k)"
proof -
  let ?F = "length data div 2 div c"
  have i: "k mod c < c" using assms(1) by simp
  have f: "k div c < ?F" using assms by (simp add: less_mult_imp_div_less)
  have "sample_at (channelData (decoded data rate c)) (k mod c) (k div c) =
      quantize (real_of_int (int16_at data (k div c * c + k mod c)) / 32768)"
    using i f by (simp add: sample_at_def decoded_def)
  also have "\<dots> = quantize (real_of_int (int16_at data k) / 32768)" by simp
  finally show ?thesis
    using int16_at_range [of data k] by (simp add: quantize_decoded)
qed

lemma encode_decoded:
  assumes "0 < c" "0 < rate"
  shows "\<exists>bytes. audioBufferToWav (decoded data rate c) = Some (Inr bytes) \<and>
     Int16Array (drop 44 bytes) =
       Inr (map (\<lambda>s. if 0 < s then s - 1 else s)
              (map (int16_at data) [0..<length data div 2 div c * c]))"
proof -
  define b where "b = decoded data rate c"
  define n where "n = length data div 2 div c * c"
  define q where "q = (\<lambda>k. sample_at (channelData b) (k mod c) (k div c))"
  define body where "body = concat (map (\<lambda>k. bytes16 (real_of_int (q k))) [0..<n])"
  have shape: "numberOfChannels b = c" "length_b b = length data div 2 div c"
    "sampleRate b = rate"
    by (simp_all add: decoded_def b_def)
  have "concat (map (\<lambda>f. frame_bytes (channelData b) f [0..<c])
      [0..<length data div 2 div c]) = body"
    unfolding frame_bytes_def body_def q_def n_def by (rule frames_reindex)
  moreover have "wf_buffer b"
    unfolding b_def using assms by (rule wf_decoded)
  ultimately have wav: "audioBufferToWav b =
      Some (Inr (wav_header c rate (length data div 2 div c * c * 2 + 44) @ body))"
    using audioBufferToWav_bytes [of b] by (simp only: shape)
  have len: "length body = 2 * n"
    by (simp add: body_def length_concat comp_def sum_list_triv)
  have samples: "int16_at body k = (if 0 < int16_at data k then int16_at data k - 1 else int16_at data k)"
    if k: "k < n" for k
  proof -
    have qk: "q k = (if 0 < int16_at data k then int16_at data k - 1 else int16_at data k)"
      unfolding q_def b_def using assms(1) k [unfolded n_def] by (rule sample_at_decoded)
    have r: "- 32768 \<le> q k" "q k \<le> 32767"
      using int16_at_range [of data k] by (simp_all add: qk)
    have bd: "body = concat (map (\<lambda>k. [word_of_int (q k), word_of_int (q k div 256)]) [0..<n])"
      by (simp add: body_def bytes16_def)
    note pn = pairs_nth [OF k, of "\<lambda>k. word_of_int (q k) :: 8 word"
        "\<lambda>k. word_of_int (q k div 256) :: 8 word", folded bd]
    have p: "body ! (2 * k) = word_of_int (q k)" "body ! (2 * k + 1) = word_of_int (q k div 256)"
      using pn by blast+
    have "int16_at body k = q k"
      using r p by (rule int16_at_bytes16)
    then show ?thesis by (simp only: qk)
  qed
  have "map (int16_at body) [0..<n] =
      map (\<lambda>s. if 0 < s then s - 1 else s) (map (int16_at data) [0..<n])"
    by (rule nth_equalityI) (simp_all add: samples)
  moreover have "Int16Array body = Inr (map (int16_at body) [0..<n])"
    by (simp add: Int16Array_def len)
  ultimately have "Int16Array body =
      Inr (map (\<lambda>s. if 0 < s then s - 1 else s) (map (int16_at data) [0..<n]))"
    by (simp only:)
  with wav show ?thesis
    unfolding b_def n_def by simp
qed

lemma samples_ex: "Int16Array [0x34, 0x12, 0xFF, 0xFF] = Inr [4660, - 1]"
  by (simp add: Int16Array_def int16_at_def upt_conv_Cons signed_take_bit_eq_take_bit_shift
      take_bit_eq_mod)

text \<open>
  C1, as the code has it. For bytes that hold \<open>F > 0\<close> whole frames of \<open>c\<close> channels,
  decoding and encoding succeed, and the 16-bit samples of the file (after its 44 header
  bytes) are the original ones with every positive sample lowered by one: a negative
  sample and 0 come back exactly, a positive sample \<open>s\<close> comes back as \<open>s - 1\<close>, since
  \<open>s / 32768 * 32767\<close> lies strictly between \<open>s - 1\<close> and \<open>s\<close> and is cut towards zero.
\<close>

theorem roundtrip_samples:
  assumes "0 < c" and "0 < rate" and "0 < F" and "length data = 2 * c * F"
  shows "\<exists>b bytes samples.
           decodePCMToAudioBuffer data rate c = Inr b \<and>
           audioBufferToWav b = Some (Inr bytes) \<and>
           Int16Array data = Inr samples \<and>
           Int16Array (drop 44 bytes) = Inr (map (\<lambda>s. if 0 < s then s - 1 else s) samples)"
proof -
  have ev: "even (length data)" using assms(4) by simp
  have one: "2 * c \<le> length data" using assms(3,4) by simp
  have n: "length data div 2 div c * c = length data div 2" using assms(1,4) by simp
  from encode_decoded [OF assms(1,2), of data] obtain bytes where
    "audioBufferToWav (decoded data rate c) = Some (Inr bytes)"
    "Int16Array (drop 44 bytes) =
       Inr (map (\<lambda>s. if 0 < s then s - 1 else s) (map (int16_at data) [0..<length data div 2]))"
    unfolding n by blast
  then show ?thesis
    using decodePCM_closed [OF assms(1,2) ev one] Int16Array_even [OF ev] by simp
qed

theorem roundtrip_samples_witness:
  "\<exists>b bytes.
     decodePCMToAudioBuffer [0x34, 0x12, 0xFF, 0xFF] 24000 1 = Inr b \<and>
     audioBufferToWav b = Some (Inr bytes) \<and>
     Int16Array [0x34, 0x12, 0xFF, 0xFF] = Inr [4660, - 1] \<and>
     Int16Array (drop 44 bytes) = Inr [4659, - 1]"
  using roundtrip_samples [of 1 24000 2 "[0x34, 0x12, 0xFF, 0xFF]"] samples_ex by auto

text \<open>The sample 1 (bytes \<open>01 00\<close>) decodes to \<open>1 / 32768\<close> and is written back as 0
  (bytes \<open>00 00\<close>), far from the positive extreme.\<close>

theorem roundtrip_counterexample:
  "decodePCMToAudioBuffer [1, 0] 24000 1 = Inr cex_buffer \<and>
   audioBufferToWav cex_buffer = Some (Inr
     ([0x52, 0x49, 0x46, 0x46, 0x26, 0, 0, 0, 0x57, 0x41, 0x56, 0x45,
       0x66, 0x6D, 0x74, 0x20, 16, 0, 0, 0, 1, 0, 1, 0,
       0xC0, 0x5D, 0, 0, 0x80, 0xBB, 0, 0, 2, 0, 16, 0,
       0x64, 0x61, 0x74, 0x61, 2, 0, 0, 0] @ [0, 0]))"
proof -
  have "decoded [1, 0] 24000 1 = cex_buffer"
    by (simp add: decoded_def cex_buffer_def int16_at_def)
  then have d: "decodePCMToAudioBuffer [1, 0] 24000 1 = Inr cex_buffer"
    using decodePCM_closed [of 1 24000 "[1, 0]"] by simp
  have "wf_buffer cex_buffer" by (simp add: wf_buffer_def cex_buffer_def)
  from audioBufferToWav_bytes [OF this]
  have "audioBufferToWav cex_buffer =
      Some (Inr (wav_header 1 24000 46 @ bytes16 (real_of_int (quantize (1 / 32768)))))"
    by (simp add: cex_buffer_def frame_bytes_def sample_at_def)
  moreover have "quantize (1 / 32768) = 0"
    using quantize_decoded [of 1] by simp
  moreover have "wav_header 1 24000 46 =
      [0x52, 0x49, 0x46, 0x46, 0x26, 0, 0, 0, 0x57, 0x41, 0x56, 0x45,
       0x66, 0x6D, 0x74, 0x20, 16, 0, 0, 0, 1, 0, 1, 0,
       0xC0, 0x5D, 0, 0, 0x80, 0xBB, 0, 0, 2, 0, 16, 0,
       0x64, 0x61, 0x74, 0x61, 2, 0, 0, 0]"
    by (simp add: wav_header_def bytes32_def bytes16_def js_trunc_def)
  ultimately show ?thesis
    using d by (simp add: bytes16_def js_trunc_def)
qed

section \<open>Bytes that are not a whole number of frames\<close>

text \<open>
  C3, as the code has it. For a byte buffer of even length that holds at least one whole
  frame the decoder does not fail: it returns \<open>\<lfloor>length / (2 * numChannels)\<rfloor>\<close> frames,
  the very buffer it returns for the bytes cut to that many frames.
\<close>

theorem decode_truncates:
  assumes "0 < c" and "0 < rate" and "even (length data)" and "2 * c \<le> length data"
  shows "\<exists>b. decodePCMToAudioBuffer data rate c = Inr b \<and>
           length_b b = length data div (2 * c) \<and> numberOfChannels b = c \<and>
           decodePCMToAudioBuffer (take (2 * c * (length data div (2 * c))) data) rate c = Inr b"
proof -
  let ?m = "2 * c * (length data div (2 * c))"
  have F: "0 < length data div (2 * c)"
    using assms(1,4) by (simp add: div_greater_zero_iff)
  have "even (length (take ?m data))" by simp
  moreover have "2 * c \<le> length (take ?m data)" using F by simp
  ultimately have "decodePCMToAudioBuffer (take ?m data) rate c = Inr (decoded (take ?m data) rate c)"
    using assms(1,2) by (intro decodePCM_closed)
  then have short: "decodePCMToAudioBuffer (take ?m data) rate c = Inr (decoded data rate c)"
    by (simp only: decoded_take [OF assms(1,3)])
  have shape: "length_b (decoded data rate c) = length data div (2 * c)"
    "numberOfChannels (decoded data rate c) = c"
    by (simp_all add: decoded_def div_mult2_eq)
  show ?thesis
    by (intro exI [of _ "decoded data rate c"])
      (simp only: decodePCM_closed [OF assms] short shape simp_thms)
qed

theorem decode_truncates_witness:
  "\<exists>b. decodePCMToAudioBuffer [1, 0, 2, 0, 3, 0] 24000 2 = Inr b \<and>
       length_b b = 1 \<and> numberOfChannels b = 2 \<and>
       decodePCMToAudioBuffer [1, 0, 2, 0] 24000 2 = Inr b"
  using decode_truncates [of 2 24000 "[1, 0, 2, 0, 3, 0]"] by simp

text \<open>Three bytes are no \<^verbatim>\<open>Int16Array\<close>: the constructor raises \<^verbatim>\<open>RangeError\<close>.\<close>

theorem decode_odd_counterexample:
  "decodePCMToAudioBuffer [1, 2, 3] 24000 1 = Inl RangeError"
  by (simp add: decodePCMToAudioBuffer_def Int16Array_def)

section \<open>Speed and pitch\<close>





section \<open>The overlap-add sum\<close>

lemma ola_loop_positions:
  "0 < h \<Longrightarrow>
   ola_loop input r h n m i ow =
     Some (fold (\<lambda>i. window_add input \<lfloor>fl (real_of_int i * r)\<rfloor> i) (ola_positions r h n m i) ow)"
proof (induction r h n m i arbitrary: ow rule: ola_positions.induct)
  case (1 r h n m i)
  show ?case
  proof (cases "i < int n - windowSize \<and> \<lfloor>fl (real_of_int i * r)\<rfloor> + windowSize \<le> int m")
    case True
    with "1.prems" have "ola_positions r h n m i = i # ola_positions r h n m (i + h)"
      by (subst ola_positions.simps) simp
    moreover have "ola_loop input r h n m i ow =
        ola_loop input r h n m (i + h) (window_add input \<lfloor>fl (real_of_int i * r)\<rfloor> i ow)"
      using True by (subst ola_loop.simps) (simp add: Let_def)
    ultimately show ?thesis
      using "1.IH" [of "window_add input \<lfloor>fl (real_of_int i * r)\<rfloor> i ow"] True "1.prems" by simp
  next
    case False
    then have "ola_positions r h n m i = []"
      by (subst ola_positions.simps) auto
    moreover have "ola_loop input r h n m i ow = Some ow"
      using False by (subst ola_loop.simps) (auto simp: Let_def)
    ultimately show ?thesis by simp
  qed
qed

lemma ola_positions_range:
  "p \<in> set (ola_positions r h n m i) \<Longrightarrow>
   i \<le> p \<and> p < int n - windowSize \<and> \<lfloor>fl (real_of_int p * r)\<rfloor> + windowSize \<le> int m"
proof (induction r h n m i rule: ola_positions.induct)
  case (1 r h n m i)
  show ?case
  proof (cases "0 < h \<and> i < int n - windowSize \<and> \<lfloor>fl (real_of_int i * r)\<rfloor> + windowSize \<le> int m")
    case True
    then have "ola_positions r h n m i = i # ola_positions r h n m (i + h)"
      by (subst ola_positions.simps) simp
    with "1.prems" have "p = i \<or> p \<in> set (ola_positions r h n m (i + h))" by simp
    then show ?thesis
      using True "1.IH" by auto
  next
    case False
    then have "ola_positions r h n m i = []"
      by (subst ola_positions.simps) auto
    with "1.prems" show ?thesis by simp
  qed
qed

lemma window_step_fst_nth:
  "k < length (fst ow) \<Longrightarrow>
   fst (window_step input ii i j ow) ! k =
     (if k = nat i + j then fst ow ! k + input ! (nat ii + j) * hann j else fst ow ! k)"
  by (cases ow) (simp add: window_step_def)

lemma window_step_snd_nth:
  "k < length (snd ow) \<Longrightarrow>
   snd (window_step input ii i j ow) ! k =
     (if k = nat i + j then snd ow ! k + hann j else snd ow ! k)"
  by (cases ow) (simp add: window_step_def)

lemma fold_window_step_fst_nth:
  "k < length (fst ow) \<Longrightarrow>
   fst (fold (window_step input ii i) [0..<J] ow) ! k =
     (if nat i \<le> k \<and> k < nat i + J
      then fst ow ! k + input ! (nat ii + (k - nat i)) * hann (k - nat i)
      else fst ow ! k)"
proof (induction J)
  case 0
  then show ?case by simp
next
  case (Suc J)
  then show ?case
    by (auto simp: window_step_fst_nth fold_window_step_length)
qed

lemma fold_window_step_snd_nth:
  "k < length (snd ow) \<Longrightarrow>
   snd (fold (window_step input ii i) [0..<J] ow) ! k =
     (if nat i \<le> k \<and> k < nat i + J then snd ow ! k + hann (k - nat i) else snd ow ! k)"
proof (induction J)
  case 0
  then show ?case by simp
next
  case (Suc J)
  then show ?case
    by (auto simp: window_step_snd_nth fold_window_step_length)
qed

lemma window_add_fst_nth:
  assumes "0 \<le> i" "k < length (fst ow)"
  shows "fst (window_add input \<lfloor>fl (real_of_int i * r)\<rfloor> i ow) ! k = fst ow ! k + ola_term input r k i"
proof -
  have "(nat i \<le> k \<and> k < nat i + nat windowSize) = (i \<le> int k \<and> int k < i + windowSize)"
    using assms(1) by (auto simp: windowSize_def)
  then show ?thesis
    using assms(2) by (simp add: window_add_def fold_window_step_fst_nth ola_term_def)
qed

lemma window_add_snd_nth:
  assumes "0 \<le> i" "k < length (snd ow)"
  shows "snd (window_add input ii i ow) ! k = snd ow ! k + ola_weight k i"
proof -
  have "(nat i \<le> k \<and> k < nat i + nat windowSize) = (i \<le> int k \<and> int k < i + windowSize)"
    using assms(1) by (auto simp: windowSize_def)
  then show ?thesis
    using assms(2) by (simp add: window_add_def fold_window_step_snd_nth ola_weight_def)
qed

lemma fold_window_add_length:
  "length (fst (fold (\<lambda>i. window_add input (f i) i) ps ow)) = length (fst ow) \<and>
   length (snd (fold (\<lambda>i. window_add input (f i) i) ps ow)) = length (snd ow)"
  by (induction ps arbitrary: ow) (simp_all add: window_add_length)

lemma fold_window_add_fst_nth:
  "\<forall>p \<in> set ps. 0 \<le> p \<Longrightarrow> k < length (fst ow) \<Longrightarrow>
   fst (fold (\<lambda>i. window_add input \<lfloor>fl (real_of_int i * r)\<rfloor> i) ps ow) ! k =
     fst ow ! k + sum_list (map (ola_term input r k) ps)"
proof (induction ps arbitrary: ow)
  case Nil
  then show ?case by simp
next
  case (Cons p ps)
  then show ?case
    by (simp add: window_add_length window_add_fst_nth)
qed

lemma fold_window_add_snd_nth:
  "\<forall>p \<in> set ps. 0 \<le> p \<Longrightarrow> k < length (snd ow) \<Longrightarrow>
   snd (fold (\<lambda>i. window_add input (f i) i) ps ow) ! k =
     snd ow ! k + sum_list (map (ola_weight k) ps)"
proof (induction ps arbitrary: ow)
  case Nil
  then show ?case by simp
next
  case (Cons p ps)
  then show ?case
    by (simp add: window_add_length window_add_snd_nth)
qed

lemma normalize_step_nth:
  "k < length out \<Longrightarrow>
   normalize_step w i out ! k =
     (if k = i \<and> w ! i > 0.01 then out ! k / w ! k else out ! k)"
  by (simp add: normalize_step_def)

lemma fold_normalize_step_nth:
  "k < length out \<Longrightarrow>
   fold (normalize_step w) [0..<m] out ! k =
     (if k < m \<and> w ! k > 0.01 then out ! k / w ! k else out ! k)"
proof (induction m)
  case 0
  then show ?case by simp
next
  case (Suc m)
  then show ?case
    by (auto simp: normalize_step_nth fold_normalize_step_length less_Suc_eq)
qed

lemma normalize_nth:
  "k < length out \<Longrightarrow> length out = n \<Longrightarrow>
   normalize n w out ! k = (if w ! k > 0.01 then out ! k / w ! k else out ! k)"
  by (simp add: normalize_def fold_normalize_step_nth)

lemma stretch_channel_ola:
  assumes "0 < h"
  shows "stretch_channel input r h n m (replicate n 0) =
           Some (map (ola_sample input r (ola_positions r h n m 0)) [0..<n])"
proof -
  define ps where "ps = ola_positions r h n m 0"
  define res where "res = fold (\<lambda>i. window_add input \<lfloor>fl (real_of_int i * r)\<rfloor> i) ps
      (replicate n (0::real), replicate n (0::real))"
  have run: "ola_loop input r h n m 0 (replicate n 0, replicate n 0) = Some res"
    unfolding res_def ps_def using assms by (rule ola_loop_positions)
  have nonneg: "\<forall>p \<in> set ps. 0 \<le> p"
    unfolding ps_def using ola_positions_range by blast
  have len: "length (fst res) = n" "length (snd res) = n"
    using fold_window_add_length [of input "\<lambda>i. \<lfloor>fl (real_of_int i * r)\<rfloor>" ps
        "(replicate n 0, replicate n 0)"]
    by (simp_all add: res_def)
  have o: "fst res ! k = sum_list (map (ola_term input r k) ps)" if "k < n" for k
    using fold_window_add_fst_nth [OF nonneg, of k "(replicate n 0, replicate n 0)" input r] that
    by (simp add: res_def)
  have w: "snd res ! k = sum_list (map (ola_weight k) ps)" if "k < n" for k
    using fold_window_add_snd_nth [OF nonneg, of k "(replicate n 0, replicate n 0)" input
        "\<lambda>i. \<lfloor>fl (real_of_int i * r)\<rfloor>"] that
    by (simp add: res_def)
  have "normalize n (snd res) (fst res) = map (ola_sample input r ps) [0..<n]"
  proof (rule nth_equalityI)
    show "length (normalize n (snd res) (fst res)) = length (map (ola_sample input r ps) [0..<n])"
      by (simp add: normalize_length len)
  next
    fix k assume "k < length (normalize n (snd res) (fst res))"
    then have k: "k < n" by (simp add: normalize_length len)
    then show "normalize n (snd res) (fst res) ! k = map (ola_sample input r ps) [0..<n] ! k"
      by (simp add: normalize_nth len o w ola_sample_def Let_def)
  qed
  then show ?thesis
    using run by (cases res) (simp add: stretch_channel_def ps_def)
qed

lemma stretch_channels_ola:
  assumes "0 < h"
  shows "distinct chs \<Longrightarrow> \<forall>ch \<in> set chs. ch < length outs \<and> outs ! ch = replicate n 0 \<Longrightarrow>
     stretch_channels ins r h n m chs outs =
       Some (map (\<lambda>ch. if ch \<in> set chs
                        then map (ola_sample (ins ! ch) r (ola_positions r h n m 0)) [0..<n]
                        else outs ! ch) [0..<length outs])"
proof (induction chs arbitrary: outs)
  case Nil
  then show ?case by (simp add: map_nth)
next
  case (Cons ch chs)
  let ?g = "\<lambda>ch. map (ola_sample (ins ! ch) r (ola_positions r h n m 0)) [0..<n]"
  let ?outs = "outs[ch := ?g ch]"
  have step: "stretch_channel (ins ! ch) r h n m (outs ! ch) = Some (?g ch)"
    using Cons.prems(2) stretch_channel_ola [OF assms] by simp
  have "\<forall>c \<in> set chs. c < length ?outs \<and> ?outs ! c = replicate n 0"
  proof
    fix c assume c: "c \<in> set chs"
    with Cons.prems(1) have "c \<noteq> ch" by auto
    with c Cons.prems(2) show "c < length ?outs \<and> ?outs ! c = replicate n 0" by simp
  qed
  with Cons.IH [of ?outs] Cons.prems(1)
  have "stretch_channels ins r h n m chs ?outs =
      Some (map (\<lambda>c. if c \<in> set chs then ?g c else ?outs ! c) [0..<length ?outs])"
    by simp
  moreover have "map (\<lambda>c. if c \<in> set chs then ?g c else ?outs ! c) [0..<length ?outs] =
      map (\<lambda>c. if c \<in> set (ch # chs) then ?g c else outs ! c) [0..<length outs]"
    using Cons.prems(2) by (auto simp: nth_list_update)
  ultimately show ?case using step by simp
qed

lemma ola_positions_steps:
  "ola_positions r h n m i = map (\<lambda>j. i + int j * h) [0..<length (ola_positions r h n m i)]"
proof (induction r h n m i rule: ola_positions.induct)
  case (1 r h n m i)
  show ?case
  proof (cases "0 < h \<and> i < int n - windowSize \<and> \<lfloor>fl (real_of_int i * r)\<rfloor> + windowSize \<le> int m")
    case True
    let ?rest = "ola_positions r h n m (i + h)"
    have unf: "ola_positions r h n m i = i # ?rest"
      using True by (subst ola_positions.simps) simp
    have "?rest = map (\<lambda>j. i + h + int j * h) [0..<length ?rest]"
      using "1.IH" True by simp
    also have "\<dots> = map (\<lambda>j. i + int j * h) (map Suc [0..<length ?rest])"
      by (simp add: algebra_simps)
    finally have "i # ?rest = map (\<lambda>j. i + int j * h) (0 # map Suc [0..<length ?rest])"
      by simp
    also have "0 # map Suc [0..<length ?rest] = [0..<Suc (length ?rest)]"
      by (simp add: upt_conv_Cons map_Suc_upt del: upt_Suc)
    finally have eq: "i # ?rest = map (\<lambda>j. i + int j * h) [0..<Suc (length ?rest)]" .
    show ?thesis
      unfolding unf length_Cons by (rule eq)
  next
    case False
    then have "ola_positions r h n m i = []"
      by (subst ola_positions.simps) auto
    then show ?thesis by simp
  qed
qed

lemma ola_positions_set:
  assumes "0 < h" "0 \<le> r" "0 \<le> i"
  shows "set (ola_positions r h n m i) =
     {p. i \<le> p \<and> h dvd (p - i) \<and> p < int n - windowSize \<and>
         \<lfloor>fl (real_of_int p * r)\<rfloor> + windowSize \<le> int m}"
  using assms
proof (induction r h n m i rule: ola_positions.induct)
  case (1 r h n m i)
  let ?P = "\<lambda>p. p < int n - windowSize \<and> \<lfloor>fl (real_of_int p * r)\<rfloor> + windowSize \<le> int m"
  have mono: "\<lfloor>fl (real_of_int i * r)\<rfloor> \<le> \<lfloor>fl (real_of_int p * r)\<rfloor>" if "i \<le> p" for p
    using that "1.prems"(2,3) by (intro floor_mono fl_mono mult_right_mono) simp_all
  show ?case
  proof (cases "?P i")
    case True
    have unf: "ola_positions r h n m i = i # ola_positions r h n m (i + h)"
      using True "1.prems"(1) by (subst ola_positions.simps) simp
    have IH: "set (ola_positions r h n m (i + h)) =
        {p. i + h \<le> p \<and> h dvd (p - (i + h)) \<and> ?P p}"
      using "1.IH" True "1.prems" by simp
    have "(i \<le> p \<and> h dvd (p - i)) = (p = i \<or> (i + h \<le> p \<and> h dvd (p - (i + h))))" for p
    proof
      assume a: "i \<le> p \<and> h dvd (p - i)"
      show "p = i \<or> (i + h \<le> p \<and> h dvd (p - (i + h)))"
      proof (cases "p = i")
        case False
        with a have "0 < p - i" by simp
        with a have "h \<le> p - i" using zdvd_imp_le by blast
        moreover have "h dvd (p - i - h)" using a by simp
        ultimately show ?thesis by (simp add: algebra_simps)
      qed simp
    next
      assume "p = i \<or> (i + h \<le> p \<and> h dvd (p - (i + h)))"
      then show "i \<le> p \<and> h dvd (p - i)"
      proof
        assume "p = i" then show ?thesis by simp
      next
        assume b: "i + h \<le> p \<and> h dvd (p - (i + h))"
        then have "h dvd (p - (i + h)) + h" by (intro dvd_add) simp_all
        moreover have "(p - (i + h)) + h = p - i" by simp
        ultimately have "h dvd (p - i)" by (simp only:)
        with b "1.prems"(1) show ?thesis by simp
      qed
    qed
    then show ?thesis
      using True by (auto simp: unf IH)
  next
    case False
    then have "ola_positions r h n m i = []"
      by (subst ola_positions.simps) auto
    moreover have "\<not> ?P p" if "i \<le> p" for p
      using False mono [OF that] that by linarith
    ultimately show ?thesis by auto
  qed
qed

lemma hann_512: "1 / 2 \<le> hann 512"
proof -
  have "cos (2 * pi * real 512 / real_of_int (windowSize - 1)) = cos (pi / 1023 + pi)"
    by (simp add: windowSize_def field_simps)
  also have "\<dots> = - cos (pi / 1023)" by (rule cos_periodic_pi)
  also have "\<dots> \<le> 0"
    using cos_gt_zero_pi [of "pi / 1023"] pi_gt_zero by (simp add: field_simps)
  finally show ?thesis by (simp add: hann_def)
qed

lemma hann_0: "hann 0 = 0"
  by (simp add: hann_def)

text \<open>
  C8, as the code has it. For a ratio \<open>r\<close> with \<open>0 < r \<le> 512\<close> at least 0.001 away from
  1, the synthesis position runs through \<open>0, Hout, 2 * Hout, \<dots>\<close> with
  \<open>Hout = \<lfloor>fl (512 / r)\<rfloor>\<close>: exactly the multiples \<open>i\<close> of \<open>Hout\<close> with
  \<open>i < newLength - 1024\<close> (the window must end strictly before the last output frame) and
  \<open>inputIdx + 1024 \<le> oldLength\<close>, where \<open>inputIdx = \<lfloor>fl (i * r)\<rfloor>\<close> and
  \<open>newLength = max 1 \<lfloor>fl (oldLength / r)\<rfloor>\<close>; the three floors are those of the doubles
  the code computes. Each position adds \<open>input[inputIdx + j] * win[j]\<close> to
  \<open>output[i + j]\<close> and \<open>win[j]\<close> to \<open>weight[i + j]\<close> for \<open>j < 1024\<close>; every output sample is
  then the sum it has accumulated (an exact sum here), divided by its accumulated weight
  where that exceeds 0.01 and left as it is elsewhere.
\<close>

theorem timeStretch_overlap_add:
  assumes "wf_buffer b" and "0 < r" and "r \<le> 512" and "0.001 \<le> \<bar>r - 1.0\<bar>"
  shows "let newLength = nat (max 1 \<lfloor>fl (real (length_b b) / r)\<rfloor>);
             Hout = \<lfloor>fl (real_of_int hopSize / r)\<rfloor>;
             positions = ola_positions r Hout newLength (length_b b) 0
         in timeStretch b r = Some (Inr
              \<lparr> numberOfChannels = numberOfChannels b, length_b = newLength,
                sampleRate = sampleRate b,
                channelData = map (\<lambda>channel. map (ola_sample (channelData b ! channel) r positions)
                                                [0..<newLength])
                                [0..<numberOfChannels b] \<rparr>) \<and>
            positions = map (\<lambda>j. int j * Hout) [0..<length positions] \<and>
            set positions = {i. 0 \<le> i \<and> Hout dvd i \<and> i < int newLength - windowSize \<and>
                                \<lfloor>fl (real_of_int i * r)\<rfloor> + windowSize \<le> int (length_b b)}"
proof -
  define n where "n = nat (max 1 \<lfloor>fl (real (length_b b) / r)\<rfloor>)"
  define h where "h = \<lfloor>fl (real_of_int hopSize / r)\<rfloor>"
  define ps where "ps = ola_positions r h n (length_b b) 0"
  let ?c = "numberOfChannels b"
  have h: "0 < h" unfolding h_def using assms(2,3) by (rule hop_positive)
  have n: "n \<noteq> 0" by (simp add: n_def)
  have new: "new_AudioBuffer n ?c (sampleRate b) =
      Inr \<lparr> numberOfChannels = ?c, length_b = n, sampleRate = sampleRate b,
            channelData = replicate ?c (replicate n 0) \<rparr>"
    using assms(1) n by (simp add: new_AudioBuffer_def wf_buffer_def)
  have "stretch_channels (channelData b) r h n (length_b b) [0..<?c] (replicate ?c (replicate n 0)) =
      Some (map (\<lambda>ch. if ch \<in> set [0..<?c] then map (ola_sample (channelData b ! ch) r ps) [0..<n]
                       else replicate ?c (replicate n 0) ! ch)
              [0..<length (replicate ?c (replicate n (0::real)))])"
    unfolding ps_def by (rule stretch_channels_ola [OF h]) simp_all
  also have "map (\<lambda>ch. if ch \<in> set [0..<?c] then map (ola_sample (channelData b ! ch) r ps) [0..<n]
                       else replicate ?c (replicate n 0) ! ch)
              [0..<length (replicate ?c (replicate n (0::real)))] =
      map (\<lambda>ch. map (ola_sample (channelData b ! ch) r ps) [0..<n]) [0..<?c]"
    by simp
  finally have chans: "stretch_channels (channelData b) r h n (length_b b) [0..<?c]
      (replicate ?c (replicate n 0)) =
      Some (map (\<lambda>ch. map (ola_sample (channelData b ! ch) r ps) [0..<n]) [0..<?c])" .
  have run: "timeStretch b r = Some (Inr
      \<lparr> numberOfChannels = ?c, length_b = n, sampleRate = sampleRate b,
        channelData = map (\<lambda>ch. map (ola_sample (channelData b ! ch) r ps) [0..<n]) [0..<?c] \<rparr>)"
    using assms(2,4) new chans
    by (simp add: timeStretch_def Let_def n_def [symmetric] h_def [symmetric])
  have steps: "ps = map (\<lambda>j. int j * h) [0..<length ps]"
    using ola_positions_steps [of r h n "length_b b" 0] by (simp add: ps_def)
  have set: "set ps = {i. 0 \<le> i \<and> h dvd i \<and> i < int n - windowSize \<and>
      \<lfloor>fl (real_of_int i * r)\<rfloor> + windowSize \<le> int (length_b b)}"
    using ola_positions_set [OF h, of r 0 n "length_b b"] assms(2) by (simp add: ps_def)
  show ?thesis
    unfolding Let_def n_def [symmetric] h_def [symmetric] ps_def [symmetric]
    using run steps set by (intro conjI)
qed

theorem timeStretch_overlap_add_witness:
  "\<exists>out. timeStretch ones1640 double_1_6 = Some (Inr out) \<and> length_b out = 1025 \<and>
     ola_positions double_1_6 320 1025 1640 0 = [0] \<and>
     channelData out ! 0 ! 512 = 1 \<and> channelData out ! 0 ! 0 = 0 \<and>
     channelData out ! 0 ! 1024 = 0"
proof -
  have wf: "wf_buffer ones1640" by (simp add: wf_buffer_def ones1640_def)
  have r: "0 < double_1_6" "double_1_6 \<le> 512" "0.001 \<le> \<bar>double_1_6 - 1.0\<bar>"
    by (simp_all add: double_1_6_def)
  have n: "nat (max 1 \<lfloor>fl (real (length_b ones1640) / double_1_6)\<rfloor>) = 1025"
    using fl_1640 by (simp add: ones1640_def double_1_6_def)
  have h: "\<lfloor>fl (real_of_int hopSize / double_1_6)\<rfloor> = 320"
    using fl_320 by (simp add: hopSize_def double_1_6_def)
  have "ola_positions double_1_6 320 1025 1640 320 = []"
    by (subst ola_positions.simps) (simp add: windowSize_def)
  then have ps: "ola_positions double_1_6 320 1025 1640 0 = [0]"
    by (subst ola_positions.simps) (simp add: windowSize_def)
  have s512: "ola_sample (replicate 1640 1) double_1_6 [0] 512 = 1"
    using hann_512 by (simp add: ola_sample_def ola_weight_def ola_term_def windowSize_def)
  have s0: "ola_sample (replicate 1640 1) double_1_6 [0] 0 = 0"
    by (simp add: ola_sample_def ola_weight_def ola_term_def windowSize_def hann_0)
  have s1024: "ola_sample (replicate 1640 1) double_1_6 [0] 1024 = 0"
    by (simp add: ola_sample_def ola_weight_def ola_term_def windowSize_def)
  from timeStretch_overlap_add [of ones1640 double_1_6, OF wf r]
  have "timeStretch ones1640 double_1_6 = Some (Inr
      \<lparr> numberOfChannels = 1, length_b = 1025, sampleRate = 24000,
        channelData = [map (ola_sample (replicate 1640 1) double_1_6 [0]) [0..<1025]] \<rparr>)"
    unfolding Let_def n h by (simp add: ones1640_def ps)
  then show ?thesis
    using ps s512 s0 s1024 by simp
qed

text \<open>
  With 2048 input frames and the ratio 2 the output has 1024 frames. The window at
  \<open>i = 0\<close> satisfies \<open>i + 1024 \<le> newLength\<close>, and the loop as the specification words it
  adds it (sample 512 of a constant input 1 comes out as 1); the code's loop condition
  \<open>0 < 1024 - 1024\<close> fails and the code returns silence.
\<close>

theorem ola_guard_counterexample:
  "timeStretch ones2048 2 = Some (Inr \<lparr> numberOfChannels = 1, length_b = 1024,
      sampleRate = 24000, channelData = [replicate 1024 0] \<rparr>) \<and>
   map_option (\<lambda>output. output ! 512) (stretch_channel_spec (replicate 2048 1) 2 1024) = Some 1"
proof -
  let ?input = "replicate 2048 (1::real)"
  let ?zero = "(replicate 1024 (0::real), replicate 1024 (0::real))"
  let ?res = "window_add ?input 0 0 ?zero"
  have code: "timeStretch ones2048 2 = Some (Inr \<lparr> numberOfChannels = 1, length_b = 1024,
      sampleRate = 24000, channelData = [replicate 1024 0] \<rparr>)"
    using timeStretch_short [of ones2048 2] by (simp add: ones2048_def fl_numeral)
  have "ola_loop_spec ?input 2 256 1024 256 ?res = Some ?res"
    by (subst ola_loop_spec.simps) (simp add: windowSize_def)
  then have loop: "ola_loop_spec ?input 2 256 1024 0 ?zero = Some ?res"
    by (subst ola_loop_spec.simps) (simp add: windowSize_def)
  have len: "length (fst ?res) = 1024" "length (snd ?res) = 1024"
    by (simp_all add: window_add_length)
  have "fst ?res ! 512 = hann 512"
    using window_add_fst_nth [of 0 512 ?zero ?input 2]
    by (simp add: ola_term_def windowSize_def)
  moreover have "snd ?res ! 512 = hann 512"
    using window_add_snd_nth [of 0 512 ?zero ?input 0]
    by (simp add: ola_weight_def windowSize_def)
  ultimately have "normalize 1024 (snd ?res) (fst ?res) ! 512 = 1"
    using hann_512 len by (simp add: normalize_nth)
  then have "map_option (\<lambda>output. output ! 512) (stretch_channel_spec ?input 2 1024) = Some 1"
    using loop by (simp add: stretch_channel_spec_def hopSize_def case_prod_beta fl_numeral)
  with code show ?thesis by simp
qed


end
